theory Spec2Isabelle
  imports Complex_Main
begin

section \<open>The exclusion set of \<^verbatim>\<open>zipper.py\<close>\<close>

text \<open>
  \<^verbatim>\<open>get_excluded_patterns\<close> returns a fixed set of fourteen basenames.
\<close>

definition get_excluded_patterns :: "string set" where
  "get_excluded_patterns =
     {''.git'', ''.github'', ''node_modules'', ''.DS_Store'', ''__MACOSX'',
      ''.gitignore'', ''.env'', ''.vscode'', ''.idea'', ''.zip'', ''Thumbs.db'',
      ''desktop.ini'', ''package-lock.json'', ''yarn.lock''}"

text \<open>
  Python's \<^verbatim>\<open>str.split(',')\<close>: the string is cut at every occurrence of the
  separator, empty pieces are kept, and nothing is stripped. \<open>cur\<close> is the piece
  being read.
\<close>

fun split_from :: "char \<Rightarrow> string \<Rightarrow> string \<Rightarrow> string list" where
  "split_from sep cur [] = [cur]"
| "split_from sep cur (c # cs) =
     (if c = sep then cur # split_from sep [] cs else split_from sep (cur @ [c]) cs)"

definition str_split :: "string \<Rightarrow> char \<Rightarrow> string list" where
  "str_split s sep = split_from sep [] s"

text \<open>
  \<^verbatim>\<open>exclude=args.exclude.split(',') if args.exclude else []\<close> in \<^verbatim>\<open>main\<close>:
  the empty string is falsy.
\<close>

definition parse_exclude :: "string \<Rightarrow> string list" where
  "parse_exclude s = (if s \<noteq> [] then str_split s (CHR '','') else [])"

text \<open>
  \<^verbatim>\<open>exclude_patterns = get_excluded_patterns().union(set(exclude or []))\<close>;
  \<open>None\<close> is the default of the parameter \<^verbatim>\<open>exclude\<close>.
\<close>

definition exclude_patterns :: "string list option \<Rightarrow> string set" where
  "exclude_patterns exclude =
     get_excluded_patterns \<union> set (case exclude of None \<Rightarrow> [] | Some xs \<Rightarrow> xs)"

text \<open>\<^verbatim>\<open>','.join(pieces)\<close>, used to state what a split is.\<close>

fun str_join :: "char \<Rightarrow> string list \<Rightarrow> string" where
  "str_join sep [] = []"
| "str_join sep [p] = p"
| "str_join sep (p # q # ps) = p @ sep # str_join sep (q # ps)"

section \<open>Numbers and their text\<close>

text \<open>
  The exceptions that the modelled code can raise. \<open>Float_repr_unmodelled\<close> is not a
  Python exception: it marks the one expression whose value is not modelled, the
  \<^verbatim>\<open>str\<close> of a float (see \<open>py_str\<close>); \<open>human_size_never_str_of_float\<close> shows that
  \<^verbatim>\<open>human_size\<close> never evaluates it.
\<close>

datatype exn =
  KeyboardInterrupt | ZeroDivisionError | OverflowError | ValueError | OSError
  | Float_repr_unmodelled

text \<open>\<^verbatim>\<open>int.bit_length()\<close> of a non-negative integer.\<close>

fun bit_length :: "nat \<Rightarrow> nat" where
  "bit_length n = (if n = 0 then 0 else Suc (bit_length (n div 2)))"

declare bit_length.simps [simp del]

text \<open>
  A Python \<^verbatim>\<open>float\<close> is an IEEE 754 binary64 number. Its finite values are rationals,
  and a finite float is modelled by the rational it denotes. Every arithmetic result
  is the exact result rounded to the nearest binary64 value, ties to the even
  significand: 53 significant bits, the last one worth \<open>2 ^ (e - 52)\<close> for a value in
  \<open>[2 ^ e, 2 ^ (e + 1))\<close> and never less than \<open>2 ^ (- 1074)\<close>.
\<close>

definition round_half_even :: "rat \<Rightarrow> int" where
  "round_half_even x =
     (let f = \<lfloor>x\<rfloor>; d = x - of_int f
      in if d < 1 / 2 then f else if 1 / 2 < d then f + 1 else if even f then f else f + 1)"

definition pow2 :: "int \<Rightarrow> rat" where
  "pow2 e = (if 0 \<le> e then 2 ^ nat e else 1 / 2 ^ nat (- e))"

text \<open>For \<open>0 < x\<close>, the \<open>e\<close> with \<open>2 ^ e \<le> x < 2 ^ (e + 1)\<close>.\<close>

definition float_exponent :: "rat \<Rightarrow> int" where
  "float_exponent x =
     (if 1 \<le> x then int (bit_length (nat \<lfloor>x\<rfloor>)) - 1
      else - int (bit_length (nat (\<lceil>1 / x\<rceil> - 1))))"

definition round_binary64 :: "rat \<Rightarrow> rat" where
  "round_binary64 x =
     (if x = 0 then 0
      else let q = pow2 (max (float_exponent \<bar>x\<bar> - 52) (- 1074))
           in of_int (round_half_even (x / q)) * q)"

text \<open>
  \<^verbatim>\<open>a / b\<close> on two ints (true division): the correctly rounded quotient;
  \<^verbatim>\<open>ZeroDivisionError\<close> for \<^verbatim>\<open>b == 0\<close>, and \<^verbatim>\<open>OverflowError\<close> ("integer division
  result too large for a float") when the rounded quotient is not a finite float.
\<close>

definition int_truediv :: "int \<Rightarrow> int \<Rightarrow> exn + rat" where
  "int_truediv a b =
     (if b = 0 then Inl ZeroDivisionError
      else let r = round_binary64 (of_int a / of_int b)
           in if 2 ^ 1024 \<le> \<bar>r\<bar> then Inl OverflowError else Inr r)"

text \<open>
  \<^verbatim>\<open>float(k)\<close>, the conversion an int operand undergoes next to a float one:
  correctly rounded, \<^verbatim>\<open>OverflowError\<close> when too large.
\<close>

definition float_of_int :: "int \<Rightarrow> exn + rat" where
  "float_of_int k = int_truediv k 1"

text \<open>
  Float arithmetic does not raise on overflow, it gives an infinity. The model has no
  value for an infinity: a rational of magnitude \<open>2 ^ 1024\<close> or more, which no finite
  float denotes, stands for the infinity of its sign, and \<open>format_f\<close> prints it so.
  Float division raises \<^verbatim>\<open>ZeroDivisionError\<close> on a zero divisor.
\<close>

definition float_truediv :: "rat \<Rightarrow> rat \<Rightarrow> exn + rat" where
  "float_truediv x y = (if y = 0 then Inl ZeroDivisionError else Inr (round_binary64 (x / y)))"

definition float_sub :: "rat \<Rightarrow> rat \<Rightarrow> rat" where
  "float_sub x y = round_binary64 (x - y)"

definition float_mul :: "rat \<Rightarrow> rat \<Rightarrow> rat" where
  "float_mul x y = round_binary64 (x * y)"

text \<open>Decimal digits of a natural number, and \<^verbatim>\<open>str\<close> of an int.\<close>

definition digit_char :: "nat \<Rightarrow> char" where
  "digit_char d = ''0123456789'' ! (d mod 10)"

fun digits :: "nat \<Rightarrow> string" where
  "digits n = (if n < 10 then [digit_char n] else digits (n div 10) @ [digit_char (n mod 10)])"

declare digits.simps [simp del]

definition is_digit :: "char \<Rightarrow> bool" where
  "is_digit c = (c \<in> set ''0123456789'')"

definition str_int :: "int \<Rightarrow> string" where
  "str_int i = (if i < 0 then CHR ''-'' # digits (nat (- i)) else digits (nat i))"

text \<open>
  \<^verbatim>\<open>str(i)\<close> as CPython 3.11 computes it: the conversion of an int of more than
  \<^verbatim>\<open>sys.get_int_max_str_digits()\<close> digits, 4300 by default, raises
  \<^verbatim>\<open>ValueError\<close>.
\<close>

definition int_max_str_digits :: nat where
  "int_max_str_digits = 4300"

definition int_str :: "int \<Rightarrow> exn + string" where
  "int_str i =
     (if int_max_str_digits < length (digits (nat \<bar>i\<bar>)) then Inl ValueError
      else Inr (str_int i))"

text \<open>\<^verbatim>\<open>s.zfill(w)\<close> for a string of digits.\<close>

definition zfill :: "nat \<Rightarrow> string \<Rightarrow> string" where
  "zfill w s = replicate (w - length s) (CHR ''0'') @ s"

text \<open>
  \<^verbatim>\<open>f"{x:.<p>f}"\<close> for a float \<open>x\<close> and \<open>p\<close> of 1 or more: the decimal
  expansion of the exact value of \<open>x\<close>, correctly rounded to \<open>p\<close> places (ties to
  even), with the sign of \<open>x\<close>.
\<close>

definition format_f :: "nat \<Rightarrow> rat \<Rightarrow> string" where
  "format_f p x =
     (let sgn = (if x < 0 then ''-'' else '''')
      in if 2 ^ 1024 \<le> \<bar>x\<bar> then sgn @ ''inf''
         else let k = nat (round_half_even (\<bar>x\<bar> * 10 ^ p))
              in sgn @ digits (k div 10 ^ p) @ ''.'' @ zfill p (digits (k mod 10 ^ p)))"

text \<open>
  The variable \<^verbatim>\<open>size_bytes\<close> of \<^verbatim>\<open>human_size\<close> holds an int at first and a float
  after the first \<^verbatim>\<open>size_bytes /= 1024\<close>.
\<close>

datatype pynum = PyInt int | PyFloat rat

text \<open>\<^verbatim>\<open>v < k\<close> for an int \<open>k\<close>: Python compares an int with a float exactly.\<close>

fun num_less :: "pynum \<Rightarrow> int \<Rightarrow> bool" where
  "num_less (PyInt n) k = (n < k)"
| "num_less (PyFloat x) k = (x < of_int k)"

text \<open>\<^verbatim>\<open>v / k\<close> for an int \<open>k\<close>.\<close>

fun num_truediv :: "pynum \<Rightarrow> int \<Rightarrow> exn + rat" where
  "num_truediv (PyInt n) k = int_truediv n k"
| "num_truediv (PyFloat x) k =
     (case float_of_int k of Inl e \<Rightarrow> Inl e | Inr y \<Rightarrow> float_truediv x y)"

text \<open>\<^verbatim>\<open>f"{v:.2f}"\<close>: an int is converted to a float first.\<close>

fun format_2f :: "pynum \<Rightarrow> exn + string" where
  "format_2f (PyInt n) = (case float_of_int n of Inl e \<Rightarrow> Inl e | Inr x \<Rightarrow> Inr (format_f 2 x))"
| "format_2f (PyFloat x) = Inr (format_f 2 x)"

text \<open>
  \<^verbatim>\<open>f"{v}"\<close>, that is \<^verbatim>\<open>str(v)\<close>. The shortest-digits text of a float is not
  modelled.
\<close>

fun py_str :: "pynum \<Rightarrow> exn + string" where
  "py_str (PyInt n) = int_str n"
| "py_str (PyFloat x) = Inl Float_repr_unmodelled"

section \<open>\<^verbatim>\<open>human_size\<close>\<close>

text \<open>
  The \<^verbatim>\<open>for unit in ['B', 'KB', 'MB', 'GB']\<close> loop, over the units still to come.
  \<open>Inr None\<close> is the function falling off the end of the loop, which in Python
  returns \<^verbatim>\<open>None\<close>.
\<close>

fun human_size_loop :: "string list \<Rightarrow> pynum \<Rightarrow> exn + string option" where
  "human_size_loop [] size_bytes = Inr None"
| "human_size_loop (unit # units) size_bytes =
     (if num_less size_bytes 1024 \<or> unit = ''GB''
      then (if unit \<noteq> ''B''
            then (case format_2f size_bytes of
                    Inl e \<Rightarrow> Inl e | Inr s \<Rightarrow> Inr (Some (s @ '' '' @ unit)))
            else (case py_str size_bytes of
                    Inl e \<Rightarrow> Inl e | Inr s \<Rightarrow> Inr (Some (s @ '' B''))))
      else (case num_truediv size_bytes 1024 of
              Inl e \<Rightarrow> Inl e
            | Inr x \<Rightarrow> human_size_loop units (PyFloat x)))"

definition human_size :: "int \<Rightarrow> exn + string option" where
  "human_size size_bytes = human_size_loop [''B'', ''KB'', ''MB'', ''GB''] (PyInt size_bytes)"

text \<open>
  \<^verbatim>\<open>f"{(1 - zip_size/total_size)*100:.1f}%"\<close>, on two ints.
\<close>

definition compression_ratio :: "int \<Rightarrow> int \<Rightarrow> exn + string" where
  "compression_ratio zip_size total_size =
     (case int_truediv zip_size total_size of
        Inl e \<Rightarrow> Inl e
      | Inr q \<Rightarrow> Inr (format_f 1 (float_mul (float_sub 1 q) 100) @ ''%''))"

section \<open>The file system\<close>

text \<open>
  A path is the list of its components (\<^verbatim>\<open>pathlib.Path.parts\<close> without the
  root), read from the root directory, which \<open>tree\<close> stands for. A directory entry
  is a regular file or a directory, with its name and its \<^verbatim>\<open>st_size\<close>; a directory
  lists its entries in the order in which \<^verbatim>\<open>os.scandir\<close> enumerates them. Symbolic
  links are not modelled.
\<close>

type_synonym path = "string list"

datatype entry = File string nat | Dir string nat "entry list"

fun entry_name :: "entry \<Rightarrow> string" where
  "entry_name (File n s) = n"
| "entry_name (Dir n s es) = n"

fun st_size :: "entry \<Rightarrow> nat" where
  "st_size (File n s) = s"
| "st_size (Dir n s es) = s"

fun is_dir :: "entry \<Rightarrow> bool" where
  "is_dir (File n s) = False"
| "is_dir (Dir n s es) = True"

text \<open>The entry a name denotes in a directory listing.\<close>

fun child :: "entry list \<Rightarrow> string \<Rightarrow> entry option" where
  "child [] c = None"
| "child (e # es) c = (if entry_name e = c then Some e else child es c)"

text \<open>Path resolution from the top of the tree.\<close>

fun lookup :: "entry \<Rightarrow> path \<Rightarrow> entry option" where
  "lookup e [] = Some e"
| "lookup (File n s) (c # p) = None"
| "lookup (Dir n s es) (c # p) =
     (case child es c of None \<Rightarrow> None | Some e \<Rightarrow> lookup e p)"

text \<open>
  \<^verbatim>\<open>os.scandir(p)\<close>: the listing of a directory; \<open>None\<close> is the \<^verbatim>\<open>OSError\<close> raised
  for a path that does not exist or is not a directory.
\<close>

definition scandir :: "entry \<Rightarrow> path \<Rightarrow> entry list option" where
  "scandir tree p =
     (case lookup tree p of Some (Dir n s es) \<Rightarrow> Some es | _ \<Rightarrow> None)"

text \<open>\<^verbatim>\<open>p.stat().st_size\<close>; \<open>None\<close> is the \<^verbatim>\<open>OSError\<close> for a missing path.\<close>

definition stat_size :: "entry \<Rightarrow> path \<Rightarrow> nat option" where
  "stat_size tree p = map_option st_size (lookup tree p)"

text \<open>\<^verbatim>\<open>Path(p).name\<close>: the last component, the empty string when there is none.\<close>

definition path_name :: "path \<Rightarrow> string" where
  "path_name p = (if p = [] then [] else last p)"

text \<open>
  \<^verbatim>\<open>Path(base) / s\<close> for a string \<open>s\<close>, on POSIX: the components of \<open>s\<close> are
  its pieces between slashes, without the empty ones and the single dots; a string
  that starts with a slash is an absolute path and replaces \<open>base\<close>.
\<close>

definition path_parts :: "string \<Rightarrow> path" where
  "path_parts s = filter (\<lambda>c. c \<noteq> [] \<and> c \<noteq> ''.'') (str_split s (CHR ''/''))"

definition path_join :: "path \<Rightarrow> string \<Rightarrow> path" where
  "path_join base s =
     (if s \<noteq> [] \<and> hd s = CHR ''/'' then path_parts s else base @ path_parts s)"

text \<open>\<^verbatim>\<open>p.parent\<close>, for a path of at least one component.\<close>

definition path_parent :: "path \<Rightarrow> path" where
  "path_parent p = butlast p"

text \<open>
  \<^verbatim>\<open>p.relative_to(base)\<close>: the components of \<open>p\<close> after those of \<open>base\<close>;
  \<^verbatim>\<open>ValueError\<close> when \<open>p\<close> does not start with \<open>base\<close>.
\<close>

definition relative_to :: "path \<Rightarrow> path \<Rightarrow> exn + path" where
  "relative_to p base =
     (if take (length base) p = base then Inr (drop (length base) p) else Inl ValueError)"

text \<open>
  The names \<^verbatim>\<open>os.walk\<close> sorts a listing into: \<^verbatim>\<open>dirs\<close> for the entries that
  are directories, \<^verbatim>\<open>nondirs\<close> for the others, each in the order of the listing.
\<close>

definition dir_names :: "entry list \<Rightarrow> string list" where
  "dir_names es = map entry_name (filter is_dir es)"

definition file_names :: "entry list \<Rightarrow> string list" where
  "file_names es = map entry_name (filter (\<lambda>e. \<not> is_dir e) es)"

text \<open>A file system gives the entries of one directory different names.\<close>

fun distinct_names :: "entry \<Rightarrow> bool" where
  "distinct_names (File n s) = True"
| "distinct_names (Dir n s es) =
     (distinct (map entry_name es) \<and> (\<forall>e \<in> set es. distinct_names e))"

text \<open>
  \<^verbatim>\<open>os.walk(top)\<close>, top-down, with the default \<^verbatim>\<open>onerror=None\<close>: a directory
  that cannot be listed is skipped silently and yields nothing. The generator yields
  \<^verbatim>\<open>(top, dirs, nondirs)\<close>, and when it is resumed it descends into the names that
  the list \<^verbatim>\<open>dirs\<close> holds then. \<open>edit\<close> is what the consumer does to that list
  between the two; the triple carries the list as the consumer leaves it.
\<close>

function os_walk ::
  "(string list \<Rightarrow> string list) \<Rightarrow> entry \<Rightarrow> path \<Rightarrow> (path \<times> string list \<times> string list) list"
where
  "os_walk edit tree topdir =
     (case scandir tree topdir of
        None \<Rightarrow> []
      | Some es \<Rightarrow>
          (let dirs = dir_names es;
               nondirs = file_names es;
               dirs' = edit dirs
           in (topdir, dirs', nondirs)
              # concat (map (\<lambda>dirname. os_walk edit tree (topdir @ [dirname])) dirs')))"
  by pat_completeness auto
termination
proof (relation "measure (\<lambda>(edit, tree, p).
          case lookup tree p of None \<Rightarrow> 0 | Some e \<Rightarrow> Suc (size e))")
  show "wf (measure (\<lambda>(edit, tree, p).
          case lookup tree p of None \<Rightarrow> 0 | Some e \<Rightarrow> Suc (size e)))"
    by simp
next
  fix edit :: "string list \<Rightarrow> string list"
    and tree topdir es and dirs nondirs dirs' :: "string list" and dirname
  assume "scandir tree topdir = Some es"
  then obtain n s where l: "lookup tree topdir = Some (Dir n s es)"
    by (auto simp: scandir_def split: option.splits entry.splits)
  have snoc: "lookup e (p @ [c]) =
      (case lookup e p of Some (Dir n s es) \<Rightarrow> child es c | _ \<Rightarrow> None)" for e p c
  proof (induction e p rule: lookup.induct)
    case (1 e)
    then show ?case by (cases e) (auto split: option.splits)
  next
    case (2 n s c p)
    then show ?case by simp
  next
    case (3 n s es c p)
    then show ?case by (auto split: option.splits)
  qed
  have smaller: "child es c = Some e \<Longrightarrow> size e < Suc (size_list size es)"
    for es c and e :: entry
    by (induction es) (auto split: if_splits)
  show "((edit, tree, topdir @ [dirname]), (edit, tree, topdir))
        \<in> measure (\<lambda>(edit, tree, p).
             case lookup tree p of None \<Rightarrow> 0 | Some e \<Rightarrow> Suc (size e))"
    using l smaller [of es dirname]
    by (auto simp: snoc split: option.splits)
qed

declare os_walk.simps [simp del]

section \<open>\<^verbatim>\<open>create_zip\<close>\<close>

subsection \<open>File discovery\<close>

text \<open>
  The body of the discovery loop for one triple of the walk: \<^verbatim>\<open>for file in files\<close>.
  The accumulator is \<^verbatim>\<open>(file_paths, total_size)\<close>. A failing \<^verbatim>\<open>stat\<close> raises
  \<^verbatim>\<open>OSError\<close>, which nothing in \<^verbatim>\<open>create_zip\<close> catches at this point.
\<close>

fun scan_files ::
  "string set \<Rightarrow> entry \<Rightarrow> path \<Rightarrow> string list \<Rightarrow> path list \<times> nat \<Rightarrow> exn + path list \<times> nat"
where
  "scan_files excl tree rootdir [] acc = Inr acc"
| "scan_files excl tree rootdir (file # files) acc =
     (if file \<notin> excl
      then (let path = rootdir @ [file]
            in case stat_size tree path of
                 None \<Rightarrow> Inl OSError
               | Some sz \<Rightarrow>
                   scan_files excl tree rootdir files (fst acc @ [path], snd acc + sz))
      else scan_files excl tree rootdir files acc)"

text \<open>\<^verbatim>\<open>for root, dirs, files in os.walk(source_dir)\<close>, over the triples of the walk.\<close>

fun discover_loop ::
  "string set \<Rightarrow> entry \<Rightarrow> (path \<times> string list \<times> string list) list \<Rightarrow> path list \<times> nat
     \<Rightarrow> exn + path list \<times> nat"
where
  "discover_loop excl tree [] acc = Inr acc"
| "discover_loop excl tree ((rootdir, dirs, files) # rest) acc =
     (case scan_files excl tree rootdir files acc of
        Inl e \<Rightarrow> Inl e
      | Inr acc' \<Rightarrow> discover_loop excl tree rest acc')"

text \<open>
  The discovery phase. \<^verbatim>\<open>dirs[:] = [d for d in dirs if d not in exclude_patterns]\<close>
  is the edit of the walk's list.
\<close>

definition discover :: "string set \<Rightarrow> entry \<Rightarrow> path \<Rightarrow> exn + path list \<times> nat" where
  "discover excl tree source_dir =
     discover_loop excl tree
       (os_walk (filter (\<lambda>d. d \<notin> excl)) tree source_dir) ([], 0)"

text \<open>
  The paths that the two loops keep from the triples of a walk, in order; used to state
  what discovery returns.
\<close>

definition kept_files :: "string set \<Rightarrow> (path \<times> string list \<times> string list) list \<Rightarrow> path list" where
  "kept_files excl triples =
     concat (map (\<lambda>(r, ds, ns). map (\<lambda>f. r @ [f]) (filter (\<lambda>f. f \<notin> excl) ns)) triples)"

subsection \<open>The archive's name\<close>

record datetime =
  year :: nat
  month :: nat
  day :: nat
  hour :: nat
  minute :: nat
  second :: nat

text \<open>The dates and times of day that \<^verbatim>\<open>datetime.now()\<close> can return, from year 1000 on.\<close>

definition valid_datetime :: "datetime \<Rightarrow> bool" where
  "valid_datetime d =
     (1000 \<le> year d \<and> year d \<le> 9999 \<and> 1 \<le> month d \<and> month d \<le> 12
      \<and> 1 \<le> day d \<and> day d \<le> 31 \<and> hour d < 24 \<and> minute d < 60 \<and> second d < 60)"

text \<open>
  \<^verbatim>\<open>strftime("%Y%m%d_%H%M%S")\<close>: each field in decimal, zero-padded to two digits;
  the year has its four digits from 1000 on, and below that the padding written here
  is the one of the Python documentation (the C libraries differ).
\<close>

definition strftime :: "datetime \<Rightarrow> string" where
  "strftime d =
     zfill 4 (digits (year d)) @ zfill 2 (digits (month d)) @ zfill 2 (digits (day d))
     @ ''_'' @ zfill 2 (digits (hour d)) @ zfill 2 (digits (minute d))
     @ zfill 2 (digits (second d))"

text \<open>
  \<^verbatim>\<open>base_name = custom_name or Path(source_dir).name\<close>: \<^verbatim>\<open>None\<close> and the empty
  string are both falsy.
\<close>

definition base_name :: "string option \<Rightarrow> path \<Rightarrow> string" where
  "base_name custom_name source_dir =
     (case custom_name of
        None \<Rightarrow> path_name source_dir
      | Some n \<Rightarrow> if n = [] then path_name source_dir else n)"

definition zip_filename :: "string option \<Rightarrow> path \<Rightarrow> bool \<Rightarrow> datetime \<Rightarrow> string" where
  "zip_filename custom_name source_dir use_timestamp now =
     (if use_timestamp
      then base_name custom_name source_dir @ ''_'' @ strftime now @ ''.zip''
      else base_name custom_name source_dir @ ''.zip'')"

subsection \<open>The environment of a run\<close>

text \<open>
  What a run does to the file system, in order: creating the output directory,
  creating the archive file, writing one entry (the file read, the name it gets in the
  archive), closing the archive.
\<close>

datatype action =
  Mkdir path | Open_archive path | Write_entry path path | Close_archive path

text \<open>
  The moments at which the user's interrupt (\<^verbatim>\<open>KeyboardInterrupt\<close>) can reach the
  run: during discovery, before the \<open>i\<close>-th entry is written, while the statistics
  are computed.
\<close>

datatype moment = At_discovery | At_write nat | At_stats

text \<open>
  The environment: the directory tree, the clock, which actions the operating system
  or the library refuses, when (if ever) the user interrupts, the size \<^verbatim>\<open>stat\<close>
  reports for the finished archive, and the elapsed time
  \<^verbatim>\<open>time.time() - start_time\<close>. Whatever its class, the exception of a refused
  action is an \<^verbatim>\<open>Exception\<close>; the model names it \<^verbatim>\<open>OSError\<close>.
\<close>

record env =
  fs :: entry
  now :: datetime
  fails :: "action \<Rightarrow> bool"
  sigint :: "moment option"
  zip_st_size :: nat
  elapsed :: rat

text \<open>The dictionary \<^verbatim>\<open>stats\<close>, one field per key.\<close>

record stats =
  source_directory :: string
  total_files :: string
  original_size :: "string option"
  compressed_size :: "string option"
  ratio_text :: string
  processing_time :: string

datatype message = No_files_found | Error_message exn

text \<open>
  How a call ends: it returns, it calls \<^verbatim>\<open>sys.exit\<close> after printing a message, or
  an exception leaves it.
\<close>

datatype 'a outcome = Returned 'a | SysExit int message | Raised exn

subsection \<open>Writing the archive\<close>

text \<open>
  \<^verbatim>\<open>for i, file_path in enumerate(file_paths, 1)\<close>: the exception that ends the
  loop, if any, and the actions done.
\<close>

fun write_loop ::
  "env \<Rightarrow> path \<Rightarrow> nat \<Rightarrow> path list \<Rightarrow> action list \<Rightarrow> exn option \<times> action list"
where
  "write_loop env source_dir i [] acts = (None, acts)"
| "write_loop env source_dir i (file_path # rest) acts =
     (if sigint env = Some (At_write i) then (Some KeyboardInterrupt, acts)
      else case relative_to file_path source_dir of
             Inl e \<Rightarrow> (Some e, acts)
           | Inr rel_path \<Rightarrow>
               if fails env (Write_entry file_path rel_path) then (Some OSError, acts)
               else write_loop env source_dir (Suc i) rest
                      (acts @ [Write_entry file_path rel_path]))"

text \<open>The names of the entries that a list of actions writes to the archive, in order.\<close>

fun entry_names :: "action list \<Rightarrow> path list" where
  "entry_names [] = []"
| "entry_names (Write_entry p r # acts) = r # entry_names acts"
| "entry_names (a # acts) = entry_names acts"

text \<open>The dictionary \<^verbatim>\<open>stats\<close>, its values computed in the order of the source.\<close>

definition make_stats :: "path \<Rightarrow> nat \<Rightarrow> nat \<Rightarrow> nat \<Rightarrow> rat \<Rightarrow> exn + stats" where
  "make_stats source_dir n total_size zip_size secs =
     (case int_str (int n) of
        Inl e \<Rightarrow> Inl e
      | Inr count \<Rightarrow>
         (case human_size (int total_size) of
            Inl e \<Rightarrow> Inl e
          | Inr original \<Rightarrow>
             (case human_size (int zip_size) of
                Inl e \<Rightarrow> Inl e
              | Inr compressed \<Rightarrow>
                 (case compression_ratio (int zip_size) (int total_size) of
                    Inl e \<Rightarrow> Inl e
                  | Inr r \<Rightarrow>
                      Inr \<lparr>source_directory = path_name source_dir,
                           total_files = count,
                           original_size = original,
                           compressed_size = compressed,
                           ratio_text = r,
                           processing_time = format_f 2 secs @ ''s''\<rparr>))))"

text \<open>
  The body of the \<^verbatim>\<open>try\<close>. Leaving the \<^verbatim>\<open>with\<close> block closes the archive, also
  when an exception leaves it; an exception raised by the closing replaces the one in
  flight.
\<close>

definition archive_phase ::
  "env \<Rightarrow> path \<Rightarrow> path \<Rightarrow> path list \<Rightarrow> nat \<Rightarrow> action list \<Rightarrow> (exn + stats) \<times> action list"
where
  "archive_phase env source_dir zip_path file_paths total_size acts =
     (if fails env (Open_archive zip_path) then (Inl OSError, acts)
      else
        let (x, acts1) = write_loop env source_dir 1 file_paths (acts @ [Open_archive zip_path]);
            (x', acts2) = (if fails env (Close_archive zip_path) then (Some OSError, acts1)
                           else (x, acts1 @ [Close_archive zip_path]))
        in case x' of
             Some e \<Rightarrow> (Inl e, acts2)
           | None \<Rightarrow>
               if sigint env = Some At_stats then (Inl KeyboardInterrupt, acts2)
               else (make_stats source_dir (length file_paths) total_size
                       (zip_st_size env) (elapsed env), acts2))"

text \<open>
  \<^verbatim>\<open>except Exception as e\<close>, with \<^verbatim>\<open>sys.exit(1)\<close> in the handler:
  \<^verbatim>\<open>KeyboardInterrupt\<close> is not an \<^verbatim>\<open>Exception\<close> and passes through.
\<close>

definition is_Exception :: "exn \<Rightarrow> bool" where
  "is_Exception e = (e \<noteq> KeyboardInterrupt)"

fun except_Exception :: "(exn + stats) \<times> action list \<Rightarrow> stats outcome \<times> action list" where
  "except_Exception (Inr st, acts) = (Returned st, acts)"
| "except_Exception (Inl e, acts) =
     (if is_Exception e then (SysExit 1 (Error_message e), acts) else (Raised e, acts))"

definition create_zip ::
  "env \<Rightarrow> path \<Rightarrow> path \<Rightarrow> string option \<Rightarrow> string list option \<Rightarrow> bool
     \<Rightarrow> stats outcome \<times> action list"
where
  "create_zip env source_dir output_path custom_name exclude use_timestamp =
     (if sigint env = Some At_discovery then (Raised KeyboardInterrupt, [])
      else
        case discover (exclude_patterns exclude) (fs env) source_dir of
          Inl e \<Rightarrow> (Raised e, [])
        | Inr (file_paths, total_size) \<Rightarrow>
            if file_paths = [] then (SysExit 1 No_files_found, [])
            else
              let zip_path =
                    path_join output_path
                      (zip_filename custom_name source_dir use_timestamp (now env))
              in if fails env (Mkdir (path_parent zip_path)) then (Raised OSError, [])
                 else except_Exception
                        (archive_phase env source_dir zip_path file_paths total_size
                           [Mkdir (path_parent zip_path)]))"

section \<open>\<^verbatim>\<open>main\<close> and the script\<close>

text \<open>The parsed command line.\<close>

record args =
  arg_source :: path
  arg_output :: path
  arg_name :: "string option"
  arg_exclude :: string
  arg_no_timestamp :: bool

definition main :: "env \<Rightarrow> args \<Rightarrow> stats outcome \<times> action list" where
  "main env a =
     create_zip env (arg_source a) (arg_output a) (arg_name a)
       (Some (parse_exclude (arg_exclude a))) (\<not> arg_no_timestamp a)"

text \<open>
  The \<^verbatim>\<open>if __name__ == "__main__"\<close> block and the interpreter around it: the exit
  status of the process. \<^verbatim>\<open>except KeyboardInterrupt\<close> calls \<^verbatim>\<open>sys.exit(0)\<close>; any
  other exception that leaves \<^verbatim>\<open>main\<close> ends the interpreter with status 1.
\<close>

definition exit_status :: "'a outcome \<Rightarrow> int" where
  "exit_status r =
     (case r of
        Returned v \<Rightarrow> 0
      | SysExit n m \<Rightarrow> n
      | Raised e \<Rightarrow> if e = KeyboardInterrupt then 0 else 1)"

definition script :: "env \<Rightarrow> args \<Rightarrow> int \<times> action list" where
  "script env a = (exit_status (fst (main env a)), snd (main env a))"

section \<open>An environment for examples\<close>

text \<open>
  A run in which nothing is refused and nobody interrupts, on a given tree, at a fixed
  time; the finished archive has 250 bytes.
\<close>

definition quiet :: "entry \<Rightarrow> env" where
  "quiet t = \<lparr>fs = t,
              now = \<lparr>year = 2024, month = 3, day = 9, hour = 7, minute = 5, second = 0\<rparr>,
              fails = (\<lambda>a. False), sigint = None, zip_st_size = 250, elapsed = 1 / 8\<rparr>"

section \<open>Helper facts\<close>

lemma os_walk_no_listing: "scandir tree p = None \<Longrightarrow> os_walk edit tree p = []"
  by (simp add: os_walk.simps)

lemma scandir_None_iff:
  "scandir tree p = None \<longleftrightarrow>
     (lookup tree p = None \<or> (\<exists>n s. lookup tree p = Some (File n s)))"
  by (auto simp: scandir_def split: option.splits entry.splits)

lemma discover_no_listing: "scandir tree p = None \<Longrightarrow> discover excl tree p = Inr ([], 0)"
  by (simp add: discover_def os_walk_no_listing)

lemma create_zip_no_files:
  assumes "sigint env \<noteq> Some At_discovery"
    and "discover (exclude_patterns exclude) (fs env) source_dir = Inr ([], n)"
  shows "create_zip env source_dir output_path custom_name exclude use_timestamp
         = (SysExit 1 No_files_found, [])"
  using assms by (simp add: create_zip_def)

lemma quiet_simps [simp]:
  "fs (quiet t) = t" "sigint (quiet t) = None" "fails (quiet t) a = False"
  "zip_st_size (quiet t) = 250" "elapsed (quiet t) = 1 / 8"
  "now (quiet t) = \<lparr>year = 2024, month = 3, day = 9, hour = 7, minute = 5, second = 0\<rparr>"
  by (simp_all add: quiet_def)

lemmas walk_eval =
  os_walk.simps scandir_def stat_size_def discover_def exclude_patterns_def
  get_excluded_patterns_def dir_names_def file_names_def Let_def

text \<open>Evaluating floors of rational numerals, and the whole of the arithmetic.\<close>

lemma floor_rat_numeral:
  "\<lfloor>numeral a / numeral b :: rat\<rfloor> = numeral a div numeral b"
  "\<lfloor>1 / numeral b :: rat\<rfloor> = 1 div numeral b"
  "\<lfloor>- (numeral a / numeral b) :: rat\<rfloor> = - numeral a div numeral b"
  "\<lfloor>- (1 / numeral b) :: rat\<rfloor> = - 1 div numeral b"
  using floor_divide_of_int_eq [of "numeral a" "numeral b", where ?'a = rat]
    floor_divide_of_int_eq [of 1 "numeral b", where ?'a = rat]
    floor_divide_of_int_eq [of "- numeral a" "numeral b", where ?'a = rat]
    floor_divide_of_int_eq [of "- 1" "numeral b", where ?'a = rat]
  by simp_all

lemma ceiling_rat_numeral:
  "\<lceil>numeral a / numeral b :: rat\<rceil> = - (- numeral a div numeral b)"
  "\<lceil>1 / numeral b :: rat\<rceil> = - (- 1 div numeral b)"
  unfolding ceiling_def by (simp_all add: floor_rat_numeral)

lemmas num_eval =
  human_size_def int_truediv_def float_of_int_def float_truediv_def float_sub_def
  float_mul_def round_binary64_def float_exponent_def pow2_def round_half_even_def
  bit_length.simps format_f_def digits.simps digit_char_def zfill_def str_int_def Let_def
  int_str_def int_max_str_digits_def
  floor_rat_numeral ceiling_rat_numeral compression_ratio_def

lemmas run_eval =
  main_def script_def exit_status_def create_zip_def archive_phase_def relative_to_def
  zip_filename_def base_name_def path_name_def is_Exception_def Let_def
  path_join_def path_parts_def path_parent_def str_split_def

lemma snd_except_Exception: "snd (except_Exception r) = snd r"
  by (cases r rule: except_Exception.cases) auto

section \<open>What discovery finds\<close>

lemma os_walk_listing:
  "scandir tree p = Some es \<Longrightarrow>
   os_walk edit tree p =
     (p, edit (dir_names es), file_names es)
     # concat (map (\<lambda>d. os_walk edit tree (p @ [d])) (edit (dir_names es)))"
  by (subst os_walk.simps) (simp add: Let_def)

lemma os_walk_induct [case_names step]:
  assumes "\<And>p. (\<And>es d. scandir tree p = Some es \<Longrightarrow> d \<in> set (edit (dir_names es))
                        \<Longrightarrow> P (p @ [d])) \<Longrightarrow> P p"
  shows "P p"
proof -
  have "e = edit \<Longrightarrow> t = tree \<Longrightarrow> P q" for e t q
  proof (induction e t q rule: os_walk.induct)
    case (1 e t topdir)
    show ?case
    proof (rule assms)
      fix es d
      assume "scandir tree topdir = Some es" "d \<in> set (edit (dir_names es))"
      with 1 show "P (topdir @ [d])"
        by simp
    qed
  qed
  then show ?thesis by simp
qed

lemma lookup_append:
  "lookup e (p @ q) = (case lookup e p of None \<Rightarrow> None | Some e' \<Rightarrow> lookup e' q)"
  by (induction e p rule: lookup.induct) (auto split: option.splits)

lemma scandir_snoc:
  "scandir tree p = Some es \<Longrightarrow> lookup tree (p @ [c]) = child es c"
  by (auto simp: scandir_def lookup_append split: option.splits entry.splits)

lemma child_Some: "child es c = Some e \<Longrightarrow> e \<in> set es \<and> entry_name e = c"
  by (induction es) (auto split: if_splits)

lemma child_of_name: "c \<in> entry_name ` set es \<Longrightarrow> child es c \<noteq> None"
  by (induction es) auto

text \<open>Every triple of the walk is the listing of a directory reached through kept names.\<close>

lemma walk_triples:
  "(r, ds, ns) \<in> set (os_walk (filter keep) tree p) \<Longrightarrow>
   \<exists>rel es. r = p @ rel \<and> (\<forall>c \<in> set rel. keep c) \<and> scandir tree r = Some es
     \<and> ds = filter keep (dir_names es) \<and> ns = file_names es"
proof (induction p rule: os_walk_induct [where tree = tree and edit = "filter keep"])
  case (step p)
  show ?case
  proof (cases "scandir tree p")
    case None
    with step.prems show ?thesis by (simp add: os_walk_no_listing)
  next
    case (Some es)
    note w = os_walk_listing [OF Some, of "filter keep"]
    from step.prems consider "(r, ds, ns) = (p, filter keep (dir_names es), file_names es)"
      | d where "d \<in> set (filter keep (dir_names es))"
          "(r, ds, ns) \<in> set (os_walk (filter keep) tree (p @ [d]))"
      unfolding w by auto
    then show ?thesis
    proof cases
      case 1
      with Some show ?thesis by auto
    next
      case 2
      from step.IH [OF Some 2]
      obtain rel es' where "r = (p @ [d]) @ rel" "\<forall>c \<in> set rel. keep c"
        "scandir tree r = Some es'" "ds = filter keep (dir_names es')" "ns = file_names es'"
        by auto
      moreover from 2(1) have "keep d" by simp
      ultimately show ?thesis
        by (intro exI [of _ "d # rel"] exI [of _ es']) auto
    qed
  qed
qed

lemma walk_stat:
  assumes "(r, ds, ns) \<in> set (os_walk (filter keep) tree p)" and "f \<in> set ns"
  shows "stat_size tree (r @ [f]) \<noteq> None"
proof -
  from walk_triples [OF assms(1)] obtain es where
    es: "scandir tree r = Some es" "ns = file_names es"
    by auto
  with assms(2) have "f \<in> entry_name ` set es"
    by (auto simp: file_names_def)
  then have "child es f \<noteq> None" by (rule child_of_name)
  with scandir_snoc [OF es(1)] show ?thesis
    by (simp add: stat_size_def)
qed

text \<open>The two loops of the discovery, when no \<^verbatim>\<open>stat\<close> fails.\<close>

lemma scan_files_kept:
  assumes "\<forall>f \<in> set files. stat_size tree (r @ [f]) \<noteq> None"
  shows "\<exists>n. scan_files excl tree r files acc
             = Inr (fst acc @ map (\<lambda>f. r @ [f]) (filter (\<lambda>f. f \<notin> excl) files), n)"
  using assms
proof (induction files arbitrary: acc)
  case Nil
  then show ?case by (cases acc) simp
next
  case (Cons f files)
  then obtain sz where sz: "stat_size tree (r @ [f]) = Some sz" by auto
  from Cons.prems have rest: "\<forall>f \<in> set files. stat_size tree (r @ [f]) \<noteq> None" by simp
  show ?case
  proof (cases "f \<in> excl")
    case True
    with Cons.IH [OF rest, of acc] show ?thesis by simp
  next
    case False
    with Cons.IH [OF rest, of "(fst acc @ [r @ [f]], snd acc + sz)"] sz show ?thesis
      by simp
  qed
qed

lemma discover_loop_kept:
  assumes "\<forall>(r, ds, ns) \<in> set triples. \<forall>f \<in> set ns. stat_size tree (r @ [f]) \<noteq> None"
  shows "\<exists>n. discover_loop excl tree triples acc
             = Inr (fst acc @ kept_files excl triples, n)"
  using assms
proof (induction triples arbitrary: acc)
  case Nil
  then show ?case by (cases acc) (simp add: kept_files_def)
next
  case (Cons t triples)
  obtain r ds ns where t: "t = (r, ds, ns)" by (cases t)
  with Cons.prems have "\<forall>f \<in> set ns. stat_size tree (r @ [f]) \<noteq> None" by simp
  from scan_files_kept [OF this, of excl acc] obtain n where
    s: "scan_files excl tree r ns acc
        = Inr (fst acc @ map (\<lambda>f. r @ [f]) (filter (\<lambda>f. f \<notin> excl) ns), n)" ..
  from Cons.prems have
    "\<forall>(r, ds, ns) \<in> set triples. \<forall>f \<in> set ns. stat_size tree (r @ [f]) \<noteq> None"
    by simp
  from Cons.IH [OF this,
      of "(fst acc @ map (\<lambda>f. r @ [f]) (filter (\<lambda>f. f \<notin> excl) ns), n)"] s t
  show ?case
    by (simp add: kept_files_def)
qed

text \<open>Discovery never raises, and returns the kept files of the walk.\<close>

lemma discover_kept:
  "\<exists>n. discover excl tree src
        = Inr (kept_files excl (os_walk (filter (\<lambda>d. d \<notin> excl)) tree src), n)"
proof -
  have "\<forall>(r, ds, ns) \<in> set (os_walk (filter (\<lambda>d. d \<notin> excl)) tree src).
          \<forall>f \<in> set ns. stat_size tree (r @ [f]) \<noteq> None"
    using walk_stat by fastforce
  from discover_loop_kept [OF this, of excl "([], 0)"] show ?thesis
    by (simp add: discover_def)
qed

lemma kept_files_sound:
  assumes "p \<in> set (kept_files excl (os_walk (filter (\<lambda>d. d \<notin> excl)) tree src))"
  shows "\<exists>rel. p = src @ rel \<and> rel \<noteq> [] \<and> (\<forall>c \<in> set rel. c \<notin> excl)
           \<and> lookup tree p \<noteq> None"
proof -
  from assms obtain r ds ns f where
    t: "(r, ds, ns) \<in> set (os_walk (filter (\<lambda>d. d \<notin> excl)) tree src)"
    and f: "f \<in> set ns" "f \<notin> excl" "p = r @ [f]"
    by (auto simp: kept_files_def)
  from walk_triples [OF t] obtain rel where "r = src @ rel" "\<forall>c \<in> set rel. c \<notin> excl"
    by auto
  moreover from walk_stat [OF t f(1)] have "lookup tree (r @ [f]) \<noteq> None"
    by (simp add: stat_size_def)
  ultimately show ?thesis
    using f by (intro exI [of _ "rel @ [f]"]) auto
qed

lemma kept_files_mem:
  "(r, ds, ns) \<in> set triples \<Longrightarrow> f \<in> set ns \<Longrightarrow> f \<notin> excl
   \<Longrightarrow> r @ [f] \<in> set (kept_files excl triples)"
  by (induction triples) (auto simp: kept_files_def)

lemma names_mem:
  "e \<in> set es \<Longrightarrow> is_dir e \<Longrightarrow> entry_name e \<in> set (dir_names es)"
  "e \<in> set es \<Longrightarrow> \<not> is_dir e \<Longrightarrow> entry_name e \<in> set (file_names es)"
  by (auto simp: dir_names_def file_names_def)

lemma walk_reaches:
  assumes "rel \<noteq> []" and "\<forall>c \<in> set rel. keep c"
    and "lookup tree (p @ rel) = Some (File n s)"
  shows "\<exists>ds ns. (p @ butlast rel, ds, ns) \<in> set (os_walk (filter keep) tree p)
           \<and> last rel \<in> set ns"
  using assms
proof (induction rel arbitrary: p)
  case Nil
  then show ?case by simp
next
  case (Cons d rel)
  from Cons.prems(3) obtain e where
    e: "lookup tree p = Some e" "lookup e (d # rel) = Some (File n s)"
    by (auto simp: lookup_append split: option.splits)
  then obtain m k es where dir: "e = Dir m k es" by (cases e) auto
  with e have sc: "scandir tree p = Some es" by (simp add: scandir_def)
  note w = os_walk_listing [OF sc, of "filter keep"]
  from e(2) dir obtain e' where e': "child es d = Some e'" "lookup e' rel = Some (File n s)"
    by (cases "child es d") auto
  from child_Some [OF e'(1)] have mem: "e' \<in> set es" "entry_name e' = d" by simp_all
  show ?case
  proof (cases "rel = []")
    case True
    with e'(2) have "\<not> is_dir e'" by simp
    with mem have "d \<in> set (file_names es)"
      using names_mem(2) by blast
    then have "(p, filter keep (dir_names es), file_names es)
                 \<in> set (os_walk (filter keep) tree p) \<and> d \<in> set (file_names es)"
      unfolding w by simp
    with True show ?thesis by auto
  next
    case False
    then obtain c rel' where rel: "rel = c # rel'" by (cases rel) auto
    with e'(2) have "is_dir e'" by (cases e') auto
    with mem have "d \<in> set (dir_names es)"
      using names_mem(1) by blast
    with Cons.prems(2) have d: "d \<in> set (filter keep (dir_names es))" by simp
    from Cons.prems(3) have "lookup tree ((p @ [d]) @ rel) = Some (File n s)" by simp
    moreover from Cons.prems(2) have "\<forall>c \<in> set rel. keep c" by simp
    ultimately obtain ds ns where
      t: "((p @ [d]) @ butlast rel, ds, ns) \<in> set (os_walk (filter keep) tree (p @ [d]))"
      and l: "last rel \<in> set ns"
      using Cons.IH [OF False] by blast
    from t d have "((p @ [d]) @ butlast rel, ds, ns) \<in> set (os_walk (filter keep) tree p)"
      unfolding w by auto
    moreover from False have "p @ butlast (d # rel) = (p @ [d]) @ butlast rel"
      "last (d # rel) = last rel"
      by simp_all
    ultimately show ?thesis using l by metis
  qed
qed

lemma kept_files_complete:
  assumes "rel \<noteq> []" and "\<forall>c \<in> set rel. c \<notin> excl"
    and "lookup tree (src @ rel) = Some (File n s)"
  shows "src @ rel \<in> set (kept_files excl (os_walk (filter (\<lambda>d. d \<notin> excl)) tree src))"
proof -
  from walk_reaches [OF assms(1), of "\<lambda>d. d \<notin> excl" tree src n s] assms(2,3)
  obtain ds ns where
    t: "(src @ butlast rel, ds, ns) \<in> set (os_walk (filter (\<lambda>d. d \<notin> excl)) tree src)"
    and l: "last rel \<in> set ns"
    by auto
  from assms(1,2) have "last rel \<notin> excl" by simp
  from kept_files_mem [OF t l this] assms(1) show ?thesis by simp
qed

text \<open>
  Claim C1. Discovery always returns a list of files. Every path in it is the source
  root followed by one or more components (the directories passed below the root, then
  the file's basename), none of which is a member of the exclusion set, the default
  patterns united with the user's. Membership is the only test, on single components:
  every file of the tree below the root whose components are all outside the set is
  in the list, whatever the patterns its name or its path may contain or resemble.
\<close>

theorem discovery_respects_exclusions:
  "\<exists>files n.
     discover (exclude_patterns exclude) tree source_dir = Inr (files, n)
     \<and> (\<forall>p \<in> set files.
          \<exists>rel. p = source_dir @ rel \<and> rel \<noteq> []
            \<and> (\<forall>c \<in> set rel. c \<notin> get_excluded_patterns
                               \<and> c \<notin> set (case exclude of None \<Rightarrow> [] | Some xs \<Rightarrow> xs)))
     \<and> (\<forall>rel name size.
          rel \<noteq> [] \<and> (\<forall>c \<in> set rel. c \<notin> exclude_patterns exclude)
          \<and> lookup tree (source_dir @ rel) = Some (File name size)
          \<longrightarrow> source_dir @ rel \<in> set files)"
proof -
  let ?excl = "exclude_patterns exclude"
  let ?found = "kept_files ?excl (os_walk (filter (\<lambda>d. d \<notin> ?excl)) tree source_dir)"
  from discover_kept [of ?excl tree source_dir] obtain n where
    d: "discover ?excl tree source_dir = Inr (?found, n)" ..
  have "\<exists>rel. p = source_dir @ rel \<and> rel \<noteq> []
          \<and> (\<forall>c \<in> set rel. c \<notin> get_excluded_patterns
                \<and> c \<notin> set (case exclude of None \<Rightarrow> [] | Some xs \<Rightarrow> xs))"
    if "p \<in> set ?found" for p
    using kept_files_sound [OF that] by (auto simp: exclude_patterns_def)
  moreover have "source_dir @ rel \<in> set ?found"
    if "rel \<noteq> [] \<and> (\<forall>c \<in> set rel. c \<notin> ?excl)
        \<and> lookup tree (source_dir @ rel) = Some (File name size)" for rel name size
    using that kept_files_complete [of rel ?excl tree source_dir name size] by blast
  ultimately show ?thesis using d by blast
qed

theorem discovery_respects_exclusions_witness:
  "discover (exclude_patterns (Some [''secret'']))
     (Dir [] 4096 [Dir ''proj'' 4096
        [File ''a.txt'' 10, Dir ''.git'' 4096 [File ''config'' 5],
         Dir ''node_modules'' 4096 [File ''x.js'' 5], File ''backup.zip'' 8,
         Dir ''src'' 4096 [File ''.gitignore.bak'' 2, File ''secret'' 1, File ''.env'' 3]]])
     [''proj'']
   = Inr ([[''proj'', ''a.txt''], [''proj'', ''backup.zip''],
           [''proj'', ''src'', ''.gitignore.bak'']], 20)"
proof -
  let ?t = "Dir [] 4096 [Dir ''proj'' 4096
        [File ''a.txt'' 10, Dir ''.git'' 4096 [File ''config'' 5],
         Dir ''node_modules'' 4096 [File ''x.js'' 5], File ''backup.zip'' 8,
         Dir ''src'' 4096 [File ''.gitignore.bak'' 2, File ''secret'' 1, File ''.env'' 3]]]"
  have e: "discover (exclude_patterns (Some [''secret''])) ?t [''proj'']
           = Inr ([[''proj'', ''a.txt''], [''proj'', ''backup.zip''],
                   [''proj'', ''src'', ''.gitignore.bak'']], 20)"
    by (simp add: walk_eval)
  from discovery_respects_exclusions [of "Some [''secret'']" ?t "[''proj'']"] e
  show ?thesis by simp
qed

section \<open>No file is found twice\<close>

lemma lookup_distinct_names:
  "distinct_names e \<Longrightarrow> lookup e p = Some e' \<Longrightarrow> distinct_names e'"
proof (induction e p rule: lookup.induct)
  case (1 e)
  then show ?case by simp
next
  case (2 n s c p)
  then show ?case by simp
next
  case (3 n s es c p)
  from "3.prems"(2) obtain e1 where c: "child es c = Some e1" "lookup e1 p = Some e'"
    by (cases "child es c") auto
  from child_Some [OF c(1)] "3.prems"(1) have "distinct_names e1" by simp
  from "3.IH" [OF c(1) this c(2)] show ?case .
qed

lemma scandir_distinct:
  assumes "distinct_names tree" and "scandir tree p = Some es"
  shows "distinct (dir_names es)" and "distinct (file_names es)"
proof -
  from assms(2) obtain n s where "lookup tree p = Some (Dir n s es)"
    by (auto simp: scandir_def split: option.splits entry.splits)
  from lookup_distinct_names [OF assms(1) this] have "distinct (map entry_name es)" by simp
  then show "distinct (dir_names es)" and "distinct (file_names es)"
    by (simp_all add: dir_names_def file_names_def distinct_map_filter)
qed

lemma walk_root_prefix:
  "x \<in> set (map fst (os_walk (filter keep) tree p)) \<Longrightarrow> \<exists>rel. x = p @ rel"
  using walk_triples [of x _ _ keep tree p] by fastforce

lemma distinct_concat_walks:
  assumes "distinct ds"
    and "\<And>d. d \<in> set ds \<Longrightarrow> distinct (map fst (W d))"
    and "\<And>d x. d \<in> set ds \<Longrightarrow> x \<in> set (map fst (W d)) \<Longrightarrow> \<exists>rel. x = p @ d # rel"
  shows "distinct (map fst (concat (map W ds)))"
  using assms
proof (induction ds)
  case Nil
  then show ?case by simp
next
  case (Cons d ds)
  have "set (map fst (W d)) \<inter> set (map fst (concat (map W ds))) = {}"
  proof (rule ccontr)
    assume "set (map fst (W d)) \<inter> set (map fst (concat (map W ds))) \<noteq> {}"
    then obtain x d' where x: "x \<in> set (map fst (W d))" "d' \<in> set ds"
      "x \<in> set (map fst (W d'))"
      by auto
    from Cons.prems(3) [of d x] x(1) obtain rel where "x = p @ d # rel" by auto
    moreover from Cons.prems(3) [of d' x] x(2,3) obtain rel' where "x = p @ d' # rel'"
      by auto
    ultimately have "d = d'" by simp
    with x(2) Cons.prems(1) show False by simp
  qed
  moreover have "distinct (map fst (concat (map W ds)))"
    using Cons.prems by (intro Cons.IH) auto
  moreover have "distinct (map fst (W d))"
    using Cons.prems(2) by simp
  ultimately show ?case by simp
qed

lemma walk_roots_distinct:
  assumes "distinct_names tree"
  shows "distinct (map fst (os_walk (filter keep) tree p))"
proof (induction p rule: os_walk_induct [where tree = tree and edit = "filter keep"])
  case (step p)
  show ?case
  proof (cases "scandir tree p")
    case None
    then show ?thesis by (simp add: os_walk_no_listing)
  next
    case (Some es)
    let ?ds = "filter keep (dir_names es)"
    let ?W = "\<lambda>d. os_walk (filter keep) tree (p @ [d])"
    have 1: "distinct ?ds"
      using scandir_distinct(1) [OF assms Some] by simp
    have 2: "distinct (map fst (?W d))" if "d \<in> set ?ds" for d
      using step.IH [OF Some that] .
    have 3: "\<exists>rel. x = p @ d # rel" if "x \<in> set (map fst (?W d))" for d x
      using walk_root_prefix [OF that] by auto
    have "distinct (map fst (concat (map ?W ?ds)))"
      using 1 2 3 by (rule distinct_concat_walks)
    moreover have "p \<notin> set (map fst (concat (map ?W ?ds)))"
    proof
      assume "p \<in> set (map fst (concat (map ?W ?ds)))"
      then obtain d where "p \<in> set (map fst (?W d))" by auto
      from 3 [OF this] show False by simp
    qed
    ultimately show ?thesis
      unfolding os_walk_listing [OF Some] by simp
  qed
qed

lemma distinct_kept_files:
  assumes "distinct (map fst triples)"
    and "\<forall>(r, ds, ns) \<in> set triples. distinct ns"
  shows "distinct (kept_files excl triples)"
  using assms
proof (induction triples)
  case Nil
  then show ?case by (simp add: kept_files_def)
next
  case (Cons t triples)
  obtain r ds ns where t: "t = (r, ds, ns)" by (cases t)
  let ?here = "map (\<lambda>f. r @ [f]) (filter (\<lambda>f. f \<notin> excl) ns)"
  have k: "kept_files excl (t # triples) = ?here @ kept_files excl triples"
    by (simp add: kept_files_def t)
  from Cons.prems t have "distinct ns" by simp
  then have "distinct ?here" by (simp add: distinct_map inj_on_def)
  moreover have "distinct (kept_files excl triples)"
    using Cons.prems by (intro Cons.IH) auto
  moreover have "set ?here \<inter> set (kept_files excl triples) = {}"
  proof (rule ccontr)
    assume "set ?here \<inter> set (kept_files excl triples) \<noteq> {}"
    then obtain f r' ds' ns' f' where "(r', ds', ns') \<in> set triples" "r @ [f] = r' @ [f']"
      by (auto simp: kept_files_def)
    then have "r \<in> set (map fst triples)" by force
    with Cons.prems(1) t show False by simp
  qed
  ultimately show ?case unfolding k by simp
qed

lemma discovered_distinct:
  assumes "distinct_names tree"
  shows "distinct (kept_files excl (os_walk (filter (\<lambda>d. d \<notin> excl)) tree src))"
proof (rule distinct_kept_files)
  show "distinct (map fst (os_walk (filter (\<lambda>d. d \<notin> excl)) tree src))"
    using assms by (rule walk_roots_distinct)
  show "\<forall>(r, ds, ns) \<in> set (os_walk (filter (\<lambda>d. d \<notin> excl)) tree src). distinct ns"
  proof (clarify)
    fix r ds ns
    assume "(r, ds, ns) \<in> set (os_walk (filter (\<lambda>d. d \<notin> excl)) tree src)"
    from walk_triples [OF this] obtain es where "scandir tree r = Some es" "ns = file_names es"
      by auto
    with scandir_distinct(2) [OF assms] show "distinct ns" by simp
  qed
qed

section \<open>What the write loop writes\<close>

lemma entry_names_append: "entry_names (xs @ ys) = entry_names xs @ entry_names ys"
  by (induction xs rule: entry_names.induct) auto

lemma entry_names_writes:
  "entry_names (map (\<lambda>p. Write_entry p (g p)) ps) = map g ps"
  by (induction ps) auto

lemma write_loop_all:
  assumes "sigint env = None" and "\<forall>a. \<not> fails env a"
    and "\<forall>p \<in> set files. take (length src) p = src"
  shows "write_loop env src i files acts
         = (None, acts @ map (\<lambda>p. Write_entry p (drop (length src) p)) files)"
  using assms(3)
proof (induction files arbitrary: i acts)
  case Nil
  then show ?case by simp
next
  case (Cons f files)
  from Cons.prems have "relative_to f src = Inr (drop (length src) f)"
    by (simp add: relative_to_def)
  with Cons assms(1,2) show ?case by simp
qed

lemma create_zip_actions:
  assumes "discover (exclude_patterns exclude) (fs env) source_dir = Inr (files, n)"
    and "files \<noteq> []"
    and "sigint env = None"
    and "\<forall>a. \<not> fails env a"
    and "\<forall>p \<in> set files. take (length source_dir) p = source_dir"
  shows "\<exists>zp. snd (create_zip env source_dir output_path custom_name exclude use_timestamp)
           = [Mkdir (path_parent zp), Open_archive zp]
             @ map (\<lambda>p. Write_entry p (drop (length source_dir) p)) files
             @ [Close_archive zp]"
proof -
  let ?k = "length source_dir"
  let ?zp = "path_join output_path
               (zip_filename custom_name source_dir use_timestamp (now env))"
  let ?acts = "[Mkdir (path_parent ?zp), Open_archive ?zp]
               @ map (\<lambda>p. Write_entry p (drop ?k p)) files @ [Close_archive ?zp]"
  from write_loop_all [OF assms(3,4,5)]
  have w: "write_loop env source_dir 1 files [Mkdir (path_parent ?zp), Open_archive ?zp]
           = (None, [Mkdir (path_parent ?zp), Open_archive ?zp]
                    @ map (\<lambda>p. Write_entry p (drop ?k p)) files)" .
  have "snd (archive_phase env source_dir ?zp files n [Mkdir (path_parent ?zp)]) = ?acts"
    using assms(3,4) w by (simp add: archive_phase_def)
  then have "snd (create_zip env source_dir output_path custom_name exclude use_timestamp)
             = ?acts"
    using assms(1-4) by (simp add: create_zip_def Let_def snd_except_Exception)
  then show ?thesis ..
qed

text \<open>
  Claim C2. In a run that finds at least one file, is not interrupted and meets no
  refusal of the operating system, the names of the entries written to the archive
  are, in order, the discovered paths made relative to the source root: each
  discovered path is the root followed by its entry name, there are as many entries as
  discovered files, and no name occurs twice (the tree giving the entries of one
  directory different names).
\<close>

theorem archive_entries_match_discovery:
  assumes "discover (exclude_patterns exclude) (fs env) source_dir = Inr (files, n)"
    and "files \<noteq> []"
    and "sigint env = None"
    and "\<forall>a. \<not> fails env a"
    and "distinct_names (fs env)"
  shows "entry_names (snd (create_zip env source_dir output_path custom_name exclude
                             use_timestamp))
           = map (drop (length source_dir)) files
         \<and> (\<forall>p \<in> set files. source_dir @ drop (length source_dir) p = p)
         \<and> length (entry_names (snd (create_zip env source_dir output_path custom_name
                                       exclude use_timestamp))) = length files
         \<and> distinct (map (drop (length source_dir)) files)"
proof -
  let ?excl = "exclude_patterns exclude"
  let ?k = "length source_dir"
  from discover_kept [of ?excl "fs env" source_dir] assms(1)
  have files: "files = kept_files ?excl (os_walk (filter (\<lambda>d. d \<notin> ?excl)) (fs env) source_dir)"
    by auto
  have pre: "take ?k p = source_dir \<and> source_dir @ drop ?k p = p" if "p \<in> set files" for p
    using kept_files_sound [of p ?excl "fs env" source_dir] that files by auto
  have "distinct files"
    unfolding files using assms(5) by (rule discovered_distinct)
  moreover have "inj_on (drop ?k) (set files)"
  proof (rule inj_onI)
    fix p q
    assume "p \<in> set files" "q \<in> set files" "drop ?k p = drop ?k q"
    with pre [of p] pre [of q] show "p = q" by metis
  qed
  ultimately have dist: "distinct (map (drop ?k) files)"
    by (simp add: distinct_map)
  from pre have "\<forall>p \<in> set files. take ?k p = source_dir" by simp
  from create_zip_actions [OF assms(1-4) this, of output_path custom_name use_timestamp]
  obtain zp where
    acts: "snd (create_zip env source_dir output_path custom_name exclude use_timestamp)
           = [Mkdir (path_parent zp), Open_archive zp]
             @ map (\<lambda>p. Write_entry p (drop ?k p)) files @ [Close_archive zp]" ..
  have names: "entry_names (snd (create_zip env source_dir output_path custom_name exclude
                                   use_timestamp)) = map (drop ?k) files"
    unfolding acts by (simp add: entry_names_append entry_names_writes)
  from names dist pre show ?thesis by simp
qed

theorem archive_entries_match_discovery_witness:
  "entry_names (snd (create_zip
       (quiet (Dir [] 4096 [Dir ''proj'' 4096
          [File ''a.txt'' 10, Dir ''.git'' 4096 [File ''config'' 5],
           Dir ''src'' 4096 [File ''m.py'' 7, File ''n.py'' 2]]]))
       [''proj''] [''out''] None None False))
   = [[''a.txt''], [''src'', ''m.py''], [''src'', ''n.py'']]
   \<and> discover (exclude_patterns None)
       (Dir [] 4096 [Dir ''proj'' 4096
          [File ''a.txt'' 10, Dir ''.git'' 4096 [File ''config'' 5],
           Dir ''src'' 4096 [File ''m.py'' 7, File ''n.py'' 2]]])
       [''proj'']
     = Inr ([[''proj'', ''a.txt''], [''proj'', ''src'', ''m.py''],
             [''proj'', ''src'', ''n.py'']], 19)"
proof -
  let ?t = "Dir [] 4096 [Dir ''proj'' 4096
          [File ''a.txt'' 10, Dir ''.git'' 4096 [File ''config'' 5],
           Dir ''src'' 4096 [File ''m.py'' 7, File ''n.py'' 2]]]"
  let ?files = "[[''proj'', ''a.txt''], [''proj'', ''src'', ''m.py''],
                 [''proj'', ''src'', ''n.py'']]"
  have 1: "discover (exclude_patterns None) (fs (quiet ?t)) [''proj''] = Inr (?files, 19)"
    by (simp add: walk_eval)
  have 2: "?files \<noteq> []" by simp
  have 3: "sigint (quiet ?t) = None" by simp
  have 4: "\<forall>a. \<not> fails (quiet ?t) a" by simp
  have 5: "distinct_names (fs (quiet ?t))" by simp
  show ?thesis
    using archive_entries_match_discovery [OF 1 2 3 4 5, of "[''out'']" None False] 1
    by simp
qed

section \<open>A source that is not a directory\<close>

text \<open>
  Claim C4 says that discovery fails with an error of its own when the source does not
  exist or is not a directory. \<^verbatim>\<open>os.walk\<close> swallows the error of \<^verbatim>\<open>scandir\<close>
  and yields nothing, so discovery succeeds with the empty list: here for a missing
  path and for the path of a regular file.
\<close>

theorem missing_root_counterexample:
  "lookup (Dir [] 4096 [File ''a.txt'' 10]) [''missing''] = None
   \<and> discover (exclude_patterns None) (Dir [] 4096 [File ''a.txt'' 10]) [''missing'']
       = Inr ([], 0)
   \<and> lookup (Dir [] 4096 [File ''a.txt'' 10]) [''a.txt''] = Some (File ''a.txt'' 10)
   \<and> discover (exclude_patterns None) (Dir [] 4096 [File ''a.txt'' 10]) [''a.txt'']
       = Inr ([], 0)"
  by (simp add: walk_eval)

text \<open>
  Claim C4 as amended. For a source path that does not exist or is not a directory,
  discovery returns the empty file list and a total of 0 without raising, and the run
  ends as for an empty directory: the message that no files were found, exit status 1,
  nothing done to the file system.
\<close>

theorem missing_root_is_empty_discovery:
  assumes "lookup (fs env) (arg_source a) = None
           \<or> (\<exists>n s. lookup (fs env) (arg_source a) = Some (File n s))"
    and "sigint env \<noteq> Some At_discovery"
  shows "discover excl (fs env) (arg_source a) = Inr ([], 0)
         \<and> main env a = (SysExit 1 No_files_found, [])
         \<and> script env a = (1, [])"
proof -
  from assms(1) have none: "scandir (fs env) (arg_source a) = None"
    by (simp add: scandir_None_iff)
  then have d: "discover excl (fs env) (arg_source a) = Inr ([], 0)" for excl
    by (rule discover_no_listing)
  from create_zip_no_files [OF assms(2) d]
  have "main env a = (SysExit 1 No_files_found, [])"
    by (simp add: main_def)
  with d show ?thesis
    by (simp add: script_def exit_status_def)
qed

theorem missing_root_is_empty_discovery_witness:
  "discover {} (Dir [] 4096 [File ''a.txt'' 10]) [''missing''] = Inr ([], 0)
   \<and> main (quiet (Dir [] 4096 [File ''a.txt'' 10]))
        \<lparr>arg_source = [''missing''], arg_output = [''out''], arg_name = None,
         arg_exclude = [], arg_no_timestamp = False\<rparr> = (SysExit 1 No_files_found, [])
   \<and> script (quiet (Dir [] 4096 [File ''a.txt'' 10]))
        \<lparr>arg_source = [''a.txt''], arg_output = [''out''], arg_name = None,
         arg_exclude = [], arg_no_timestamp = False\<rparr> = (1, [])"
proof -
  let ?e = "quiet (Dir [] 4096 [File ''a.txt'' 10])"
  let ?a = "\<lparr>arg_source = [''missing''], arg_output = [''out''], arg_name = None,
             arg_exclude = [], arg_no_timestamp = False\<rparr>"
  let ?b = "\<lparr>arg_source = [''a.txt''], arg_output = [''out''], arg_name = None,
             arg_exclude = [], arg_no_timestamp = False\<rparr>"
  have 1: "lookup (fs ?e) (arg_source ?a) = None
           \<or> (\<exists>n s. lookup (fs ?e) (arg_source ?a) = Some (File n s))"
    by simp
  have 2: "lookup (fs ?e) (arg_source ?b) = None
           \<or> (\<exists>n s. lookup (fs ?e) (arg_source ?b) = Some (File n s))"
    by simp
  have 3: "sigint ?e \<noteq> Some At_discovery" by simp
  show ?thesis
    using missing_root_is_empty_discovery [OF 1 3, of "{}"]
      missing_root_is_empty_discovery [OF 2 3, of "{}"]
    by simp
qed

section \<open>The user's interrupt\<close>

text \<open>
  Claim C5 says that an interrupted run ends with a non-zero exit status. The handler
  of \<^verbatim>\<open>KeyboardInterrupt\<close> calls \<^verbatim>\<open>sys.exit(0)\<close>: here the interrupt arrives
  before the second entry is written, the exception leaves \<^verbatim>\<open>main\<close>, and the
  status is 0.
\<close>

theorem interrupt_exit_counterexample:
  "fst (main ((quiet (Dir [] 4096 [Dir ''p'' 4096 [File ''a.txt'' 10, File ''b.txt'' 4]]))
              \<lparr>sigint := Some (At_write 2)\<rparr>)
         \<lparr>arg_source = [''p''], arg_output = [''out''], arg_name = None, arg_exclude = [],
          arg_no_timestamp = True\<rparr>) = Raised KeyboardInterrupt
   \<and> script ((quiet (Dir [] 4096 [Dir ''p'' 4096 [File ''a.txt'' 10, File ''b.txt'' 4]]))
              \<lparr>sigint := Some (At_write 2)\<rparr>)
         \<lparr>arg_source = [''p''], arg_output = [''out''], arg_name = None, arg_exclude = [],
          arg_no_timestamp = True\<rparr>
       = (0, [Mkdir [''out''], Open_archive [''out'', ''p.zip''],
              Write_entry [''p'', ''a.txt''] [''a.txt''], Close_archive [''out'', ''p.zip'']])"
  by (simp add: run_eval walk_eval parse_exclude_def quiet_def)

text \<open>
  Claim C5 as amended. Every run that the user's interrupt ends, that is every run in
  which \<^verbatim>\<open>KeyboardInterrupt\<close> leaves \<^verbatim>\<open>main\<close>, terminates with exit status 0, the
  status of a successful run. The handler \<^verbatim>\<open>except Exception\<close> of \<^verbatim>\<open>create_zip\<close>
  lets the interrupt through, and an interrupt during discovery ends the run before
  anything is done to the file system.
\<close>

theorem interrupted_run_exits_zero:
  "(fst (main env a) = Raised KeyboardInterrupt \<longrightarrow> fst (script env a) = 0)
   \<and> (sigint env = Some At_discovery \<longrightarrow> script env a = (0, []))
   \<and> except_Exception (Inl KeyboardInterrupt, acts) = (Raised KeyboardInterrupt, acts)"
  by (simp add: script_def exit_status_def main_def create_zip_def is_Exception_def)

theorem interrupted_run_exits_zero_witness:
  "fst (main ((quiet (Dir [] 4096 [Dir ''p'' 4096 [File ''a.txt'' 10]]))
              \<lparr>sigint := Some (At_write 1)\<rparr>)
         \<lparr>arg_source = [''p''], arg_output = [''out''], arg_name = None, arg_exclude = [],
          arg_no_timestamp = True\<rparr>) = Raised KeyboardInterrupt
   \<and> fst (script ((quiet (Dir [] 4096 [Dir ''p'' 4096 [File ''a.txt'' 10]]))
              \<lparr>sigint := Some (At_write 1)\<rparr>)
         \<lparr>arg_source = [''p''], arg_output = [''out''], arg_name = None, arg_exclude = [],
          arg_no_timestamp = True\<rparr>) = 0
   \<and> script ((quiet (Dir [] 4096 [Dir ''p'' 4096 [File ''a.txt'' 10]]))
              \<lparr>sigint := Some At_discovery\<rparr>)
         \<lparr>arg_source = [''p''], arg_output = [''out''], arg_name = None, arg_exclude = [],
          arg_no_timestamp = True\<rparr> = (0, [])"
proof -
  let ?t = "Dir [] 4096 [Dir ''p'' 4096 [File ''a.txt'' 10]]"
  let ?a = "\<lparr>arg_source = [''p''], arg_output = [''out''], arg_name = None,
             arg_exclude = [], arg_no_timestamp = True\<rparr>"
  have 1: "fst (main ((quiet ?t)\<lparr>sigint := Some (At_write 1)\<rparr>) ?a) = Raised KeyboardInterrupt"
    by (simp add: run_eval walk_eval parse_exclude_def quiet_def)
  have 2: "sigint ((quiet ?t)\<lparr>sigint := Some At_discovery\<rparr>) = Some At_discovery"
    by simp
  show ?thesis
    using 1 2 interrupted_run_exits_zero [of "(quiet ?t)\<lparr>sigint := Some (At_write 1)\<rparr>" ?a]
      interrupted_run_exits_zero [of "(quiet ?t)\<lparr>sigint := Some At_discovery\<rparr>" ?a]
    by blast
qed

section \<open>The name of the archive\<close>

lemma digits_length_le: "0 < k \<Longrightarrow> n < 10 ^ k \<Longrightarrow> length (digits n) \<le> k"
proof (induction k arbitrary: n)
  case 0
  then show ?case by simp
next
  case (Suc k)
  show ?case
  proof (cases "n < 10")
    case True
    then show ?thesis by (simp add: digits.simps)
  next
    case False
    with Suc.prems have "0 < k" by (cases k) auto
    moreover from Suc.prems have "n div 10 < 10 ^ k" by (auto simp: less_mult_imp_div_less)
    ultimately have "length (digits (n div 10)) \<le> k" by (rule Suc.IH)
    with False show ?thesis by (subst digits.simps) simp
  qed
qed

lemma digit_char_is_digit: "is_digit (digit_char d)"
  unfolding is_digit_def digit_char_def by (rule nth_mem) simp

lemma digits_all_digits: "list_all is_digit (digits n)"
  by (induction n rule: digits.induct) (subst digits.simps, simp add: digit_char_is_digit)

lemma zfill_length: "length s \<le> w \<Longrightarrow> length (zfill w s) = w"
  by (simp add: zfill_def)

lemma zfill_all_digits: "list_all is_digit s \<Longrightarrow> list_all is_digit (zfill w s)"
proof -
  have "is_digit (CHR ''0'')" by (simp add: is_digit_def)
  then show "list_all is_digit s \<Longrightarrow> list_all is_digit (zfill w s)"
    by (auto simp: zfill_def list_all_iff)
qed

lemma strftime_shape:
  assumes "valid_datetime d"
  shows "length (strftime d) = 15 \<and> list_all is_digit (take 8 (strftime d))
         \<and> strftime d ! 8 = CHR ''_'' \<and> list_all is_digit (drop 9 (strftime d))"
proof -
  define Y where "Y = zfill 4 (digits (year d))"
  define M where "M = zfill 2 (digits (month d))"
  define D where "D = zfill 2 (digits (day d))"
  define h where "h = zfill 2 (digits (hour d))"
  define m where "m = zfill 2 (digits (minute d))"
  define s where "s = zfill 2 (digits (second d))"
  have bounds: "year d < 10 ^ 4" "month d < 10 ^ 2" "day d < 10 ^ 2" "hour d < 10 ^ 2"
    "minute d < 10 ^ 2" "second d < 10 ^ 2"
    using assms by (simp_all add: valid_datetime_def)
  have len: "length Y = 4" "length M = 2" "length D = 2" "length h = 2" "length m = 2"
    "length s = 2"
    unfolding Y_def M_def D_def h_def m_def s_def
    using bounds by (simp_all add: zfill_length digits_length_le del: power_numeral)
  have dig: "list_all is_digit Y" "list_all is_digit M" "list_all is_digit D"
    "list_all is_digit h" "list_all is_digit m" "list_all is_digit s"
    unfolding Y_def M_def D_def h_def m_def s_def
    by (simp_all add: zfill_all_digits digits_all_digits)
  have eq: "strftime d = Y @ M @ D @ ''_'' @ h @ m @ s"
    by (simp add: strftime_def Y_def M_def D_def h_def m_def s_def)
  show ?thesis
    unfolding eq using len dig by (simp add: nth_append)
qed

lemma write_loop_actions:
  "a \<in> set (snd (write_loop env source_dir i files acts))
   \<Longrightarrow> a \<in> set acts \<or> (\<exists>p r. a = Write_entry p r)"
proof (induction files arbitrary: i acts)
  case Nil
  then show ?case by simp
next
  case (Cons f files)
  show ?case
  proof (cases "sigint env = Some (At_write i)")
    case True
    with Cons.prems show ?thesis by simp
  next
    case False
    show ?thesis
    proof (cases "relative_to f source_dir")
      case (Inl e)
      with False Cons.prems show ?thesis by simp
    next
      case (Inr rel)
      show ?thesis
      proof (cases "fails env (Write_entry f rel)")
        case True
        with False Inr Cons.prems show ?thesis by simp
      next
        case nofail: False
        with False Inr Cons.prems
        have "a \<in> set (snd (write_loop env source_dir (Suc i) files
                               (acts @ [Write_entry f rel])))"
          by simp
        from Cons.IH [OF this] show ?thesis by auto
      qed
    qed
  qed
qed

lemma archive_phase_opens:
  assumes "Open_archive p \<in> set (snd (archive_phase env source_dir zip_path files n acts))"
  shows "Open_archive p \<in> set acts \<or> p = zip_path"
proof -
  obtain x w where w: "write_loop env source_dir 1 files (acts @ [Open_archive zip_path]) = (x, w)"
    by (cases "write_loop env source_dir 1 files (acts @ [Open_archive zip_path])")
  have "a \<in> set w \<Longrightarrow> a \<in> set (acts @ [Open_archive zip_path]) \<or> (\<exists>p r. a = Write_entry p r)"
    for a
    using write_loop_actions [of a env source_dir 1 files "acts @ [Open_archive zip_path]"] w
    by simp
  then have "Open_archive p \<in> set w \<Longrightarrow> Open_archive p \<in> set acts \<or> p = zip_path"
    by fastforce
  with assms w show ?thesis
    by (auto simp: archive_phase_def split: if_splits option.splits)
qed

lemma create_zip_opens:
  assumes "Open_archive p \<in> set (snd (create_zip env source_dir output_path custom_name
                                         exclude use_timestamp))"
  shows "p = path_join output_path
               (zip_filename custom_name source_dir use_timestamp (now env))"
proof -
  let ?zp = "path_join output_path
               (zip_filename custom_name source_dir use_timestamp (now env))"
  from assms obtain files n where
    "Open_archive p
       \<in> set (snd (archive_phase env source_dir ?zp files n [Mkdir (path_parent ?zp)]))"
    by (auto simp: create_zip_def Let_def snd_except_Exception
        split: if_splits sum.splits prod.splits)
  from archive_phase_opens [OF this] show ?thesis by simp
qed

text \<open>A name without a slash is one component of a path.\<close>

lemma split_from_whole: "sep \<notin> set s \<Longrightarrow> split_from sep cur s = [cur @ s]"
  by (induction s arbitrary: cur) auto

lemma path_join_plain:
  assumes "CHR ''/'' \<notin> set s" and "s \<noteq> []" and "s \<noteq> ''.''"
  shows "path_join base s = base @ [s]"
proof -
  from assms(1,2) have "hd s \<noteq> CHR ''/''" by (cases s) auto
  moreover from assms have "path_parts s = [s]"
    by (simp add: path_parts_def str_split_def split_from_whole)
  ultimately show ?thesis by (simp add: path_join_def)
qed

lemma zip_filename_proper:
  "zip_filename custom_name source_dir use_timestamp d \<noteq> []"
  "zip_filename custom_name source_dir use_timestamp d \<noteq> ''.''"
proof -
  obtain b where "zip_filename custom_name source_dir use_timestamp d = b @ ''.zip''"
    by (cases use_timestamp) (simp_all add: zip_filename_def)
  then have "4 \<le> length (zip_filename custom_name source_dir use_timestamp d)" by simp
  then show "zip_filename custom_name source_dir use_timestamp d \<noteq> []"
    "zip_filename custom_name source_dir use_timestamp d \<noteq> ''.''"
    by auto
qed

text \<open>
  Claim C8 says that the file name of the archive is the base name and the extension,
  and that the base name is the explicit override whenever one is given. An override
  that is the empty string is ignored (\<^verbatim>\<open>custom_name or ...\<close>): the name is built
  from the basename of the source directory, and is not \<^verbatim>\<open>.zip\<close>. An override
  that holds a slash makes the name a path: with \<^verbatim>\<open>sub/x\<close> and no timestamp the
  run creates the directory \<^verbatim>\<open>sub\<close> in the output directory and the archive
  \<^verbatim>\<open>x.zip\<close> in it.
\<close>

theorem archive_name_counterexample:
  "zip_filename (Some []) [''work'', ''proj''] False
     \<lparr>year = 2024, month = 3, day = 9, hour = 7, minute = 5, second = 0\<rparr> = ''proj.zip''
   \<and> zip_filename (Some []) [''work'', ''proj''] False
     \<lparr>year = 2024, month = 3, day = 9, hour = 7, minute = 5, second = 0\<rparr> \<noteq> [] @ ''.zip''
   \<and> snd (main (quiet (Dir [] 4096 [Dir ''p'' 4096 [File ''a.txt'' 10]]))
          \<lparr>arg_source = [''p''], arg_output = [''out''], arg_name = Some ''sub/x'',
           arg_exclude = [], arg_no_timestamp = True\<rparr>)
     = [Mkdir [''out'', ''sub''], Open_archive [''out'', ''sub'', ''x.zip''],
        Write_entry [''p'', ''a.txt''] [''a.txt''],
        Close_archive [''out'', ''sub'', ''x.zip'']]"
proof -
  have h: "human_size 10 = Inr (Some ''10 B'')" "human_size 250 = Inr (Some ''250 B'')"
    "compression_ratio 250 10 = Inr ''-2400.0%''" "int_str 1 = Inr ''1''"
    by (simp_all add: num_eval)
  have "snd (main (quiet (Dir [] 4096 [Dir ''p'' 4096 [File ''a.txt'' 10]]))
          \<lparr>arg_source = [''p''], arg_output = [''out''], arg_name = Some ''sub/x'',
           arg_exclude = [], arg_no_timestamp = True\<rparr>)
     = [Mkdir [''out'', ''sub''], Open_archive [''out'', ''sub'', ''x.zip''],
        Write_entry [''p'', ''a.txt''] [''a.txt''],
        Close_archive [''out'', ''sub'', ''x.zip'']]"
    using h by (simp add: run_eval walk_eval make_stats_def parse_exclude_def)
  then show ?thesis
    by (simp add: zip_filename_def base_name_def path_name_def)
qed

text \<open>
  Claim C8 as amended. The name \<^verbatim>\<open>zip_filename\<close> is the base name, then an
  underscore and the timestamp when the suffix is enabled, then \<^verbatim>\<open>.zip\<close>; with the
  suffix suppressed it is the base name and \<^verbatim>\<open>.zip\<close> only. The base name is the
  override when one is given and is not empty, otherwise the basename of the source
  directory. The timestamp of a valid date has fifteen characters: eight digits, an
  underscore, six digits. When that name holds no slash, every archive a run creates
  is the file of that name in the output directory, with the suffix enabled unless
  \<^verbatim>\<open>--no-timestamp\<close> is given.
\<close>

theorem archive_filename:
  "zip_filename custom_name source_dir use_timestamp d =
     (case custom_name of
        Some n \<Rightarrow> if n \<noteq> [] then n else path_name source_dir
      | None \<Rightarrow> path_name source_dir)
     @ (if use_timestamp then ''_'' @ strftime d else []) @ ''.zip''
   \<and> (valid_datetime d \<longrightarrow>
        length (strftime d) = 15 \<and> list_all is_digit (take 8 (strftime d))
        \<and> strftime d ! 8 = CHR ''_'' \<and> list_all is_digit (drop 9 (strftime d)))
   \<and> (Open_archive p \<in> set (snd (main env a))
        \<and> CHR ''/'' \<notin> set (zip_filename (arg_name a) (arg_source a) (\<not> arg_no_timestamp a)
                                 (now env))
        \<longrightarrow> p = arg_output a
                @ [zip_filename (arg_name a) (arg_source a) (\<not> arg_no_timestamp a)
                     (now env)])"
proof -
  have "zip_filename custom_name source_dir use_timestamp d =
     (case custom_name of
        Some n \<Rightarrow> if n \<noteq> [] then n else path_name source_dir
      | None \<Rightarrow> path_name source_dir)
     @ (if use_timestamp then ''_'' @ strftime d else []) @ ''.zip''"
    by (simp add: zip_filename_def base_name_def split: option.splits)
  moreover have "p = arg_output a
            @ [zip_filename (arg_name a) (arg_source a) (\<not> arg_no_timestamp a) (now env)]"
    if "Open_archive p \<in> set (snd (main env a))"
      and "CHR ''/'' \<notin> set (zip_filename (arg_name a) (arg_source a) (\<not> arg_no_timestamp a)
                               (now env))"
  proof -
    from that(1) have "p = path_join (arg_output a)
        (zip_filename (arg_name a) (arg_source a) (\<not> arg_no_timestamp a) (now env))"
      unfolding main_def by (rule create_zip_opens)
    with path_join_plain [OF that(2) zip_filename_proper] show ?thesis by simp
  qed
  ultimately show ?thesis
    using strftime_shape [of d] by blast
qed

theorem archive_filename_witness:
  "valid_datetime \<lparr>year = 2024, month = 3, day = 9, hour = 7, minute = 5, second = 0\<rparr>
   \<and> strftime \<lparr>year = 2024, month = 3, day = 9, hour = 7, minute = 5, second = 0\<rparr>
       = ''20240309_070500''
   \<and> zip_filename (Some ''proj'') [''work'', ''src''] False
        \<lparr>year = 2024, month = 3, day = 9, hour = 7, minute = 5, second = 0\<rparr> = ''proj.zip''
   \<and> zip_filename None [''work'', ''src''] True
        \<lparr>year = 2024, month = 3, day = 9, hour = 7, minute = 5, second = 0\<rparr>
       = ''src_20240309_070500.zip''
   \<and> CHR ''/'' \<notin> set ''p_20240309_070500.zip''
   \<and> Open_archive [''out'', ''p_20240309_070500.zip'']
       \<in> set (snd (main (quiet (Dir [] 4096 [Dir ''p'' 4096 [File ''a.txt'' 10]]))
                  \<lparr>arg_source = [''p''], arg_output = [''out''], arg_name = None,
                   arg_exclude = [], arg_no_timestamp = False\<rparr>))"
proof -
  let ?d = "\<lparr>year = 2024, month = 3, day = 9, hour = 7, minute = 5, second = 0\<rparr>"
  let ?e = "quiet (Dir [] 4096 [Dir ''p'' 4096 [File ''a.txt'' 10]])"
  let ?a = "\<lparr>arg_source = [''p''], arg_output = [''out''], arg_name = None,
             arg_exclude = [], arg_no_timestamp = False\<rparr>"
  have v: "valid_datetime ?d" by (simp add: valid_datetime_def)
  have s: "strftime ?d = ''20240309_070500''"
    by (simp add: strftime_def zfill_def digits.simps digit_char_def)
  have h: "human_size 10 = Inr (Some ''10 B'')" "human_size 250 = Inr (Some ''250 B'')"
    "compression_ratio 250 10 = Inr ''-2400.0%''" "int_str 1 = Inr ''1''"
    by (simp_all add: num_eval)
  have o: "Open_archive [''out'', ''p_20240309_070500.zip''] \<in> set (snd (main ?e ?a))"
    using s h by (simp add: run_eval walk_eval make_stats_def parse_exclude_def)
  have z: "zip_filename (arg_name ?a) (arg_source ?a) (\<not> arg_no_timestamp ?a) (now ?e)
           = ''p_20240309_070500.zip''"
    using s by (simp add: zip_filename_def base_name_def path_name_def)
  have c: "CHR ''/'' \<notin> set ''p_20240309_070500.zip''" by simp
  show ?thesis
    using v s o c z archive_filename [of "Some ''proj''" "[''work'', ''src'']" False ?d
        "[''out'', ''p_20240309_070500.zip'']" ?e ?a]
      archive_filename [of None "[''work'', ''src'']" True ?d
        "[''out'', ''p_20240309_070500.zip'']" ?e ?a]
    by (simp add: path_name_def)
qed

section \<open>The compression ratio\<close>

lemma compression_ratio_zero: "compression_ratio z 0 = Inl ZeroDivisionError"
  by (simp add: compression_ratio_def int_truediv_def)

text \<open>
  Claim C3. The ratio is \<^verbatim>\<open>(1 - zip_size/total_size)*100\<close> printed with one
  decimal: 75.0 for 250 bytes out of 1000. For an original size of 0 the claim asks
  for 0.0; the code divides by \<^verbatim>\<open>total_size\<close> unguarded and raises
  \<^verbatim>\<open>ZeroDivisionError\<close>, for every compressed size. In a run over a directory that
  holds one empty file the archive is written and closed, then the statistics raise,
  the handler prints the error and the run ends with \<^verbatim>\<open>sys.exit(1)\<close>.
\<close>

theorem ratio_of_zero_bytes_raises:
  "compression_ratio z 0 = Inl ZeroDivisionError
   \<and> compression_ratio 250 1000 = Inr ''75.0%''
   \<and> create_zip (quiet (Dir [] 4096 [Dir ''p'' 4096 [File ''empty.txt'' 0]]))
        [''p''] [''out''] None None False
       = (SysExit 1 (Error_message ZeroDivisionError),
          [Mkdir [''out''], Open_archive [''out'', ''p.zip''],
           Write_entry [''p'', ''empty.txt''] [''empty.txt''],
           Close_archive [''out'', ''p.zip'']])"
proof -
  have "compression_ratio 250 1000 = Inr ''75.0%''"
    by (simp add: num_eval)
  moreover have "human_size 0 = Inr (Some ''0 B'')" "human_size 250 = Inr (Some ''250 B'')"
    "int_str 1 = Inr ''1''"
    by (simp_all add: num_eval)
  then have "create_zip (quiet (Dir [] 4096 [Dir ''p'' 4096 [File ''empty.txt'' 0]]))
        [''p''] [''out''] None None False
       = (SysExit 1 (Error_message ZeroDivisionError),
          [Mkdir [''out''], Open_archive [''out'', ''p.zip''],
           Write_entry [''p'', ''empty.txt''] [''empty.txt''],
           Close_archive [''out'', ''p.zip'']])"
    by (simp add: run_eval walk_eval make_stats_def compression_ratio_zero)
  ultimately show ?thesis
    by (simp add: compression_ratio_zero)
qed

section \<open>An empty discovery ends the run\<close>

text \<open>
  Claim C6. When discovery completes with no eligible file, \<^verbatim>\<open>create_zip\<close> prints
  its message and calls \<^verbatim>\<open>sys.exit(1)\<close> before it creates the output directory or
  the archive: the run has done nothing to the file system, and the status of the
  process is 1.
\<close>

theorem empty_discovery_exits_before_archive:
  assumes "sigint env \<noteq> Some At_discovery"
    and "discover (exclude_patterns (Some (parse_exclude (arg_exclude a)))) (fs env)
           (arg_source a) = Inr ([], n)"
  shows "main env a = (SysExit 1 No_files_found, []) \<and> script env a = (1, [])"
  using create_zip_no_files [OF assms]
  by (simp add: main_def script_def exit_status_def)

theorem empty_discovery_exits_before_archive_witness:
  "main (quiet (Dir [] 4096 [Dir ''empty'' 4096 []]))
     \<lparr>arg_source = [''empty''], arg_output = [''out''], arg_name = None, arg_exclude = [],
      arg_no_timestamp = False\<rparr> = (SysExit 1 No_files_found, [])
   \<and> script (quiet (Dir [] 4096 [Dir ''p'' 4096 [File ''.env'' 3, Dir ''.git'' 4096 [File ''config'' 5]]]))
     \<lparr>arg_source = [''p''], arg_output = [''out''], arg_name = None, arg_exclude = [],
      arg_no_timestamp = False\<rparr> = (1, [])"
proof -
  let ?a = "\<lparr>arg_source = [''empty''], arg_output = [''out''], arg_name = None,
             arg_exclude = [], arg_no_timestamp = False\<rparr>"
  let ?b = "\<lparr>arg_source = [''p''], arg_output = [''out''], arg_name = None,
             arg_exclude = [], arg_no_timestamp = False\<rparr>"
  let ?e = "quiet (Dir [] 4096 [Dir ''empty'' 4096 []])"
  let ?f = "quiet (Dir [] 4096 [Dir ''p'' 4096 [File ''.env'' 3, Dir ''.git'' 4096 [File ''config'' 5]]])"
  have 1: "sigint ?e \<noteq> Some At_discovery" "sigint ?f \<noteq> Some At_discovery" by simp_all
  have 2: "discover (exclude_patterns (Some (parse_exclude (arg_exclude ?a)))) (fs ?e)
             (arg_source ?a) = Inr ([], 0)"
    by (simp add: walk_eval parse_exclude_def)
  have 3: "discover (exclude_patterns (Some (parse_exclude (arg_exclude ?b)))) (fs ?f)
             (arg_source ?b) = Inr ([], 0)"
    by (simp add: walk_eval parse_exclude_def)
  show ?thesis
    using empty_discovery_exits_before_archive [OF 1(1) 2]
      empty_discovery_exits_before_archive [OF 1(2) 3]
    by simp
qed

section \<open>Rounding to binary64\<close>

lemma bit_length_bounds:
  "0 < n \<Longrightarrow> 2 ^ (bit_length n - 1) \<le> n \<and> n < 2 ^ bit_length n"
proof (induction n rule: bit_length.induct)
  case (1 n)
  show ?case
  proof (cases "n div 2 = 0")
    case True
    with "1.prems" have "n = 1" by presburger
    then show ?thesis by (simp add: bit_length.simps)
  next
    case False
    then have pos: "0 < n div 2" by simp
    with "1.IH" "1.prems" have
      ih: "2 ^ (bit_length (n div 2) - 1) \<le> n div 2" "n div 2 < 2 ^ bit_length (n div 2)"
      by simp_all
    have b: "bit_length n = Suc (bit_length (n div 2))"
      using "1.prems" by (subst bit_length.simps) simp
    have "0 < bit_length (n div 2)"
      using pos by (subst bit_length.simps) simp
    then obtain k where k: "bit_length (n div 2) = Suc k" by (cases "bit_length (n div 2)") auto
    from ih k have "2 * 2 ^ k \<le> n" "n < 2 * 2 ^ Suc k" by simp_all
    with b k show ?thesis by simp
  qed
qed

lemma round_half_even_cases:
  obtains "round_half_even x = \<lfloor>x\<rfloor>" "x - of_int \<lfloor>x\<rfloor> \<le> 1 / 2"
  | "round_half_even x = \<lfloor>x\<rfloor> + 1" "1 / 2 \<le> x - of_int \<lfloor>x\<rfloor>"
  unfolding round_half_even_def Let_def
  by (cases "x - of_int \<lfloor>x\<rfloor> < 1 / 2"; cases "1 / 2 < x - of_int \<lfloor>x\<rfloor>";
      cases "even \<lfloor>x\<rfloor>") auto

lemma round_half_even_bounds:
  "x - 1 / 2 \<le> of_int (round_half_even x)" "of_int (round_half_even x) \<le> x + 1 / 2"
proof -
  have f: "of_int \<lfloor>x\<rfloor> \<le> x" "x < of_int \<lfloor>x\<rfloor> + 1"
    by linarith+
  have s: "(of_int (\<lfloor>x\<rfloor> + 1) :: rat) = of_int \<lfloor>x\<rfloor> + 1" by simp
  have "x - 1 / 2 \<le> of_int (round_half_even x) \<and> of_int (round_half_even x) \<le> x + 1 / 2"
  proof (rule round_half_even_cases [of x])
    assume r: "round_half_even x = \<lfloor>x\<rfloor>" "x - of_int \<lfloor>x\<rfloor> \<le> 1 / 2"
    show ?thesis unfolding r(1) using r(2) f by linarith
  next
    assume r: "round_half_even x = \<lfloor>x\<rfloor> + 1" "1 / 2 \<le> x - of_int \<lfloor>x\<rfloor>"
    show ?thesis unfolding r(1) s using r(2) f by linarith
  qed
  then show "x - 1 / 2 \<le> of_int (round_half_even x)"
    "of_int (round_half_even x) \<le> x + 1 / 2"
    by simp_all
qed

lemma round_half_even_int: "round_half_even (of_int k) = k"
  by (simp add: round_half_even_def)

lemma round_half_even_ge: "of_int k \<le> x \<Longrightarrow> k \<le> round_half_even x"
proof -
  assume "of_int k \<le> x"
  then have "k \<le> \<lfloor>x\<rfloor>" by (simp add: le_floor_iff)
  then show ?thesis
    by (rule_tac round_half_even_cases [of x]) simp_all
qed

lemma round_half_even_le: "x \<le> of_int k \<Longrightarrow> round_half_even x \<le> k"
proof (cases "x = of_int k")
  case True
  then show ?thesis by (simp add: round_half_even_int)
next
  case False
  assume "x \<le> of_int k"
  with False have "x < of_int k" by simp
  then have "\<lfloor>x\<rfloor> < k" by (simp add: floor_less_iff)
  then show ?thesis
    by (rule_tac round_half_even_cases [of x]) simp_all
qed

lemma pow2_powi: "pow2 e = 2 powi e"
  by (simp add: pow2_def power_int_def inverse_eq_divide power_one_over)

lemma bit_length_eq:
  assumes "2 ^ k \<le> n" and "n < 2 ^ Suc k"
  shows "bit_length n = Suc k"
proof -
  from assms(1) have pos: "0 < n"
    by (metis gr0I not_less zero_less_numeral zero_less_power)
  from bit_length_bounds [OF pos] have b: "2 ^ (bit_length n - 1) \<le> n" "n < 2 ^ bit_length n"
    by simp_all
  from b(1) assms(2) have "(2::nat) ^ (bit_length n - 1) < 2 ^ Suc k" by (rule le_less_trans)
  then have 1: "bit_length n - 1 < Suc k" by (simp only: power_strict_increasing_iff one_less_numeral_iff semiring_norm)
  from assms(1) b(2) have "(2::nat) ^ k < 2 ^ bit_length n" by (rule le_less_trans)
  then have 2: "k < bit_length n" by (simp only: power_strict_increasing_iff one_less_numeral_iff semiring_norm)
  from 1 2 show ?thesis by linarith
qed

lemma float_exponent_eq:
  assumes "2 ^ k \<le> x" and "x < 2 ^ Suc k"
  shows "float_exponent x = int k"
proof -
  have one: "1 \<le> x"
    using assms(1) one_le_power [of "2::rat" k] by linarith
  have "(of_int (2 ^ k) :: rat) \<le> x" using assms(1) by simp
  then have lo: "2 ^ k \<le> \<lfloor>x\<rfloor>" by (simp only: le_floor_iff)
  have "x < (of_int (2 ^ Suc k) :: rat)" using assms(2) by simp
  then have hi: "\<lfloor>x\<rfloor> < 2 ^ Suc k" by (simp only: floor_less_iff)
  from lo have nn: "0 \<le> \<lfloor>x\<rfloor>"
    by (meson order_trans zero_le_numeral zero_le_power)
  have "int (nat \<lfloor>x\<rfloor>) = \<lfloor>x\<rfloor>" using nn by simp
  with lo hi have "int (2 ^ k) \<le> int (nat \<lfloor>x\<rfloor>)" "int (nat \<lfloor>x\<rfloor>) < int (2 ^ Suc k)"
    by simp_all
  then have "2 ^ k \<le> nat \<lfloor>x\<rfloor>" "nat \<lfloor>x\<rfloor> < 2 ^ Suc k"
    by (simp_all only: of_nat_le_iff of_nat_less_iff)
  then have "bit_length (nat \<lfloor>x\<rfloor>) = Suc k" by (rule bit_length_eq)
  with one show ?thesis by (simp add: float_exponent_def)
qed

lemma exponent_exists:
  assumes "1 \<le> (x::rat)"
  shows "\<exists>k. 2 ^ k \<le> x \<and> x < 2 ^ Suc k"
proof -
  let ?n = "nat \<lfloor>x\<rfloor>"
  from assms have f1: "1 \<le> \<lfloor>x\<rfloor>" by (simp add: le_floor_iff)
  then have pos: "0 < ?n" by simp
  from bit_length_bounds [OF pos] have b: "2 ^ (bit_length ?n - 1) \<le> ?n" "?n < 2 ^ bit_length ?n"
    by simp_all
  from pos b(2) have "0 < bit_length ?n"
    by (metis gr0I less_one not_less_zero power_0)
  then obtain k where k: "bit_length ?n = Suc k" by (cases "bit_length ?n") auto
  have n: "(of_nat ?n :: rat) = of_int \<lfloor>x\<rfloor>" using f1 by simp
  from b(1) k have "(of_nat (2 ^ k) :: rat) \<le> of_nat ?n"
    by (simp only: of_nat_le_iff diff_Suc_1)
  then have "2 ^ k \<le> (of_int \<lfloor>x\<rfloor> :: rat)" unfolding n by simp
  then have lo: "2 ^ k \<le> x" by linarith
  from b(2) k have "Suc ?n \<le> 2 ^ Suc k" by simp
  then have "(of_nat (Suc ?n) :: rat) \<le> of_nat (2 ^ Suc k)" by (simp only: of_nat_le_iff)
  then have "(of_int \<lfloor>x\<rfloor> :: rat) + 1 \<le> 2 ^ Suc k" using n by simp
  then have hi: "x < 2 ^ Suc k" by linarith
  from lo hi show ?thesis by blast
qed

text \<open>The rounded value of a number in \<open>[2 ^ k, 2 ^ (k + 1))\<close>.\<close>

lemma round_binary64_repr:
  assumes "2 ^ k \<le> x" and "x < 2 ^ Suc k"
  shows "round_binary64 x
           = of_int (round_half_even (x * 2 powi (52 - int k))) * 2 powi (int k - 52)"
    and "2 ^ 52 \<le> round_half_even (x * 2 powi (52 - int k))"
    and "round_half_even (x * 2 powi (52 - int k)) \<le> 2 ^ 53"
proof -
  have pos: "0 < x"
    using assms(1) zero_less_power [of "2::rat" k] by linarith
  then have ab: "\<bar>x\<bar> = x" "x \<noteq> 0" by simp_all
  have e: "float_exponent x = int k" using assms by (rule float_exponent_eq)
  have inv: "x / 2 powi (int k - 52) = x * 2 powi (52 - int k)"
    by (simp add: power_int_diff field_simps)
  show "round_binary64 x
           = of_int (round_half_even (x * 2 powi (52 - int k))) * 2 powi (int k - 52)"
    by (simp add: round_binary64_def ab e pow2_powi Let_def inv)
  have p: "(2::rat) ^ k * 2 powi (52 - int k) = 2 ^ 52"
    "(2::rat) ^ Suc k * 2 powi (52 - int k) = 2 ^ 53"
    by (simp_all add: power_int_diff field_simps)
  have q: "0 < (2::rat) powi (52 - int k)" by simp
  from assms(1) q have "2 ^ k * 2 powi (52 - int k) \<le> x * 2 powi (52 - int k)"
    by (simp only: mult_le_cancel_right_pos)
  then have "of_int (2 ^ 52) \<le> x * 2 powi (52 - int k)" unfolding p by simp
  then show "2 ^ 52 \<le> round_half_even (x * 2 powi (52 - int k))"
    by (rule round_half_even_ge)
  from assms(2) q have "x * 2 powi (52 - int k) < 2 ^ Suc k * 2 powi (52 - int k)"
    by (simp only: mult_less_cancel_right_pos)
  then have "x * 2 powi (52 - int k) \<le> of_int (2 ^ 53)" unfolding p by simp
  then show "round_half_even (x * 2 powi (52 - int k)) \<le> 2 ^ 53"
    by (rule round_half_even_le)
qed

lemma round_binary64_bounds:
  assumes "2 ^ k \<le> x" and "x < 2 ^ Suc k"
  shows "2 ^ k \<le> round_binary64 x" and "round_binary64 x \<le> 2 ^ Suc k"
proof -
  let ?m = "round_half_even (x * 2 powi (52 - int k))"
  note r = round_binary64_repr [OF assms]
  have q: "0 < (2::rat) powi (int k - 52)" by simp
  have p: "(2::rat) ^ 52 * 2 powi (int k - 52) = 2 ^ k"
    "(2::rat) ^ 53 * 2 powi (int k - 52) = 2 ^ Suc k"
    by (simp_all add: power_int_diff field_simps)
  from r(2) have "(2::rat) ^ 52 \<le> of_int ?m"
    by (metis of_int_le_iff of_int_numeral of_int_power)
  with q have "(2::rat) ^ 52 * 2 powi (int k - 52) \<le> of_int ?m * 2 powi (int k - 52)"
    by (simp only: mult_le_cancel_right_pos)
  then show "2 ^ k \<le> round_binary64 x" unfolding p r(1) .
  from r(3) have "of_int ?m \<le> (2::rat) ^ 53"
    by (metis of_int_le_iff of_int_numeral of_int_power)
  with q have "of_int ?m * 2 powi (int k - 52) \<le> (2::rat) ^ 53 * 2 powi (int k - 52)"
    by (simp only: mult_le_cancel_right_pos)
  then show "round_binary64 x \<le> 2 ^ Suc k" unfolding p r(1) .
qed

lemma powi2_less_D: "(2::rat) powi a < 2 powi b \<Longrightarrow> a < b"
  using power_int_increasing [of b a "2::rat"] by (cases "a < b") auto

lemma powi2_le_D: "(2::rat) powi a \<le> 2 powi b \<Longrightarrow> a \<le> b"
  using power_int_strict_increasing [of b a "2::rat"] by (cases "a \<le> b") auto

text \<open>A number with a significand of at most 53 bits is its own rounding.\<close>

lemma round_binary64_exact:
  assumes z: "z = of_int m * 2 powi t" and m: "0 < m" "m \<le> 2 ^ 53" and one: "1 \<le> z"
  shows "round_binary64 z = z"
proof -
  from exponent_exists [OF one] obtain k where k: "2 ^ k \<le> z" "z < 2 ^ Suc k" by blast
  let ?y = "z * 2 powi (52 - int k)"
  have y: "?y = of_int m * 2 powi (t + 52 - int k)"
    unfolding z by (simp add: power_int_add power_int_diff)
  have kz: "(2::rat) powi int k \<le> z" "z < 2 powi (int k + 1)"
    using k by (simp_all add: power_int_add)
  have "\<exists>a. ?y = of_int a"
  proof (cases "m = 2 ^ 53")
    case True
    then have "z = 2 powi (t + 53)"
      unfolding z by (simp add: power_int_add)
    with kz have "int k \<le> t + 53" "t + 53 < int k + 1"
      using powi2_le_D [of "int k" "t + 53"] powi2_less_D [of "t + 53" "int k + 1"] by simp_all
    then have "t + 52 - int k = - 1" by simp
    then have "?y = of_int m * 2 powi (- 1)"
      unfolding y by (simp only:)
    with True have "?y = of_int (2 ^ 52)"
      by (simp add: power_int_minus)
    then show ?thesis ..
  next
    case False
    with m have "m < 2 ^ 53" by simp
    then have "(of_int m :: rat) < 2 ^ 53"
      by (metis of_int_less_iff of_int_numeral of_int_power)
    then have "of_int m * (2::rat) powi t < 2 ^ 53 * 2 powi t"
      by (simp only: mult_less_cancel_right_pos zero_less_power_int zero_less_numeral)
    then have "z < 2 powi (t + 53)"
      unfolding z by (simp add: power_int_add mult.commute)
    with kz(1) have "(2::rat) powi int k < 2 powi (t + 53)" by simp
    then have "int k < t + 53" by (rule powi2_less_D)
    then have "0 \<le> t + 52 - int k" by simp
    then have "(2::rat) powi (t + 52 - int k) = 2 ^ nat (t + 52 - int k)"
      by (simp add: power_int_def)
    then have "?y = of_int (m * 2 ^ nat (t + 52 - int k))"
      unfolding y by simp
    then show ?thesis ..
  qed
  then obtain a where a: "?y = of_int a" ..
  have "?y * 2 powi (int k - 52) = z"
    by (simp add: power_int_diff)
  then show ?thesis
    unfolding round_binary64_repr(1) [OF k] a round_half_even_int .
qed

lemma round_binary64_small:
  assumes "2 ^ j \<le> n" and "n < 2 ^ 53"
  shows "round_binary64 (of_int n / 2 ^ j) = of_int n / 2 ^ j"
proof (rule round_binary64_exact [where m = n and t = "- int j"])
  show "of_int n / 2 ^ j = of_int n * (2::rat) powi (- int j)"
    by (simp add: power_int_minus field_simps)
  from assms(1) show "0 < n"
    by (meson less_le_trans zero_less_numeral zero_less_power)
  from assms(2) show "n \<le> 2 ^ 53" by simp
  from assms(1) have "(of_int (2 ^ j) :: rat) \<le> of_int n" by (simp only: of_int_le_iff)
  then show "1 \<le> (of_int n :: rat) / 2 ^ j" by (simp add: le_divide_eq)
qed

text \<open>The rounding of a number not below 1 is such a number.\<close>

lemma round_binary64_is_float:
  assumes "1 \<le> x"
  shows "\<exists>m t. round_binary64 x = of_int m * 2 powi t \<and> 0 < m \<and> m \<le> 2 ^ 53
           \<and> x / 2 \<le> round_binary64 x"
proof -
  from exponent_exists [OF assms] obtain k where k: "2 ^ k \<le> x" "x < 2 ^ Suc k" by blast
  note r = round_binary64_repr [OF k]
  from r(2) have "0 < round_half_even (x * 2 powi (52 - int k))"
    by (meson less_le_trans zero_less_numeral zero_less_power)
  moreover from round_binary64_bounds(1) [OF k] k(2) have "x / 2 \<le> round_binary64 x"
    by simp
  ultimately show ?thesis using r(1,3) by blast
qed

lemma divide_float_exact:
  assumes "z = of_int m * 2 powi t" and "0 < m" and "m \<le> 2 ^ 53" and "2 ^ j \<le> z"
  shows "round_binary64 (z / 2 ^ j) = z / 2 ^ j"
proof (rule round_binary64_exact [where m = m and t = "t - int j"])
  show "z / 2 ^ j = of_int m * 2 powi (t - int j)"
    unfolding assms(1) by (simp add: power_int_diff)
  show "0 < m" "m \<le> 2 ^ 53" by fact+
  from assms(4) show "1 \<le> z / 2 ^ j" by (simp add: le_divide_eq)
qed

text \<open>
  The first division of \<^verbatim>\<open>human_size\<close>: the quotient of an int by 1024 rounds to a
  finite float exactly when the int is below \<open>2 ^ 1034 - 2 ^ 980\<close>.
\<close>

lemma pow2_less_D: "(2::rat) ^ a < 2 ^ b \<Longrightarrow> a < b"
  by (simp only: power_strict_increasing_iff one_less_numeral_iff semiring_norm)

lemma quotient_overflow:
  assumes "1024 \<le> n"
  shows "(round_binary64 (of_int n / 1024) < 2 ^ 1024) = (n < 2 ^ 1034 - 2 ^ 980)"
proof -
  let ?x = "of_int n / 1024 :: rat"
  have one: "1 \<le> ?x" using assms by simp
  consider (low) "?x < 2 ^ 1023" | (top) "2 ^ 1023 \<le> ?x" "?x < 2 ^ 1024" | (over) "2 ^ 1024 \<le> ?x"
    by linarith
  then show ?thesis
  proof cases
    case low
    from exponent_exists [OF one] obtain k where k: "2 ^ k \<le> ?x" "?x < 2 ^ Suc k" by blast
    from k(1) low have "(2::rat) ^ k < 2 ^ 1023" by (rule le_less_trans)
    then have "k < 1023" by (rule pow2_less_D)
    then have "Suc k \<le> 1023" by simp
    then have "(2::rat) ^ Suc k \<le> 2 ^ 1023"
      by (simp only: power_increasing_iff one_less_numeral_iff semiring_norm)
    with round_binary64_bounds(2) [OF k] have "round_binary64 ?x \<le> 2 ^ 1023" by (rule order_trans)
    then have 1: "round_binary64 ?x < 2 ^ 1024" by simp
    from low have "of_int n < (2 ^ 1033 :: rat)" by simp
    then have "n < 2 ^ 1033"
      by (metis of_int_less_iff of_int_numeral of_int_power)
    then have 2: "n < 2 ^ 1034 - 2 ^ 980" by simp
    from 1 2 show ?thesis by simp
  next
    case over
    from exponent_exists [OF one] obtain k where k: "2 ^ k \<le> ?x" "?x < 2 ^ Suc k" by blast
    from over k(2) have "(2::rat) ^ 1024 < 2 ^ Suc k" by (rule le_less_trans)
    then have "1024 < Suc k" by (rule pow2_less_D)
    then have "1024 \<le> k" by simp
    then have "(2::rat) ^ 1024 \<le> 2 ^ k"
      by (simp only: power_increasing_iff one_less_numeral_iff semiring_norm)
    with round_binary64_bounds(1) [OF k] have 1: "2 ^ 1024 \<le> round_binary64 ?x" by simp
    from over have "(2 ^ 1034 :: rat) \<le> of_int n" by simp
    then have "2 ^ 1034 \<le> n"
      by (metis of_int_le_iff of_int_numeral of_int_power)
    then have 2: "\<not> n < 2 ^ 1034 - 2 ^ 980" by simp
    from 1 2 show ?thesis by simp
  next
    case top
    let ?y = "?x * 2 powi (52 - int 1023)"
    have k: "2 ^ 1023 \<le> ?x" "?x < 2 ^ Suc 1023" using top by simp_all
    note r = round_binary64_repr [OF k]
    have y: "?y = of_int n / 2 ^ 981"
      by (simp add: power_int_minus field_simps)
    have q: "(2::rat) powi (int 1023 - 52) = 2 ^ 971" by simp
    show ?thesis
    proof (cases "n < 2 ^ 1034 - 2 ^ 980")
      case True
      then have "n + 2 ^ 980 < 2 ^ 1034" by simp
      then have "(of_int (n + 2 ^ 980) :: rat) < of_int (2 ^ 1034)" by (simp only: of_int_less_iff)
      then have "?y + 1 / 2 < 2 ^ 53" unfolding y by (simp add: field_simps)
      with round_half_even_bounds(2) [of ?y] have "of_int (round_half_even ?y) < (2 ^ 53 :: rat)"
        by linarith
      then have "of_int (round_half_even ?y) * (2::rat) ^ 971 < 2 ^ 53 * 2 ^ 971"
        by (simp only: mult_less_cancel_right_pos zero_less_power zero_less_numeral)
      then have "round_binary64 ?x < 2 ^ 1024" unfolding r(1) q by simp
      with True show ?thesis by simp
    next
      case False
      then have "2 ^ 1034 \<le> n + 2 ^ 980" by simp
      then have "(of_int (2 ^ 1034) :: rat) \<le> of_int (n + 2 ^ 980)" by (simp only: of_int_le_iff)
      then have lo: "2 ^ 53 - 1 / 2 \<le> ?y" unfolding y by (simp add: field_simps)
      from top(2) have hi: "?y < 2 ^ 53" unfolding y by (simp add: field_simps)
      have fl: "\<lfloor>?y\<rfloor> = 2 ^ 53 - 1"
        by (rule floor_unique) (use lo hi in simp_all)
      have "round_half_even ?y = 2 ^ 53"
        unfolding round_half_even_def Let_def fl using lo by simp
      then have "round_binary64 ?x = 2 ^ 1024" unfolding r(1) q by simp
      with False show ?thesis by simp
    qed
  qed
qed

lemma truediv_1024:
  assumes "1024 \<le> n"
  shows "int_truediv n 1024
         = (if n < 2 ^ 1034 - 2 ^ 980 then Inr (round_binary64 (of_int n / 1024))
            else Inl OverflowError)"
proof -
  define r where "r = round_binary64 (of_int n / 1024)"
  define lim :: rat where "lim = 2 ^ 1024"
  define B :: int where "B = 2 ^ 1034 - 2 ^ 980"
  have "1 \<le> (of_int n / 1024 :: rat)" using assms by simp
  from round_binary64_is_float [OF this] have "0 < r"
    unfolding r_def using assms by auto
  then have a: "\<bar>r\<bar> = r" by simp
  have q: "(r < lim) = (n < B)"
    unfolding r_def lim_def B_def using assms by (rule quotient_overflow)
  have "int_truediv n 1024 = (if lim \<le> \<bar>r\<bar> then Inl OverflowError else Inr r)"
    by (simp add: int_truediv_def Let_def r_def lim_def)
  also have "\<dots> = (if n < B then Inr r else Inl OverflowError)"
    unfolding a using q by (auto simp: not_le)
  finally show ?thesis unfolding r_def B_def .
qed

section \<open>\<^verbatim>\<open>human_size\<close>: units and rendering\<close>

lemma float_of_int_1024: "float_of_int 1024 = Inr 1024"
  by (simp add: num_eval)

lemma int_str_small:
  assumes "0 \<le> i" and "i < 10000"
  shows "int_str i = Inr (str_int i)"
proof -
  from assms have "nat \<bar>i\<bar> < 10 ^ 4" by simp
  then have "length (digits (nat \<bar>i\<bar>)) \<le> 4"
    by (intro digits_length_le) simp_all
  then show ?thesis
    by (simp add: int_str_def int_max_str_digits_def)
qed

lemma human_size_bytes:
  "0 \<le> n \<Longrightarrow> n < 1024 \<Longrightarrow> human_size n = Inr (Some (str_int n @ '' B''))"
  by (simp add: human_size_def int_str_small)

text \<open>Below \<open>2 ^ 43\<close> the rounded quotient compares as the exact one does.\<close>

lemma quotient_threshold:
  assumes "1024 \<le> n" and "c \<le> 2 ^ 43"
  shows "(round_binary64 (of_int n / 1024) < c) = (of_int n / 1024 < c)"
proof (cases "n < 2 ^ 53")
  case True
  have p: "(2::rat) ^ 10 = 1024" by simp
  from assms(1) have "2 ^ 10 \<le> n" by simp
  from round_binary64_small [OF this True]
  have "round_binary64 (of_int n / 1024) = of_int n / 1024" by (simp only: p)
  then show ?thesis by (simp only:)
next
  case False
  let ?x = "of_int n / 1024 :: rat"
  from False have "(of_int (2 ^ 53) :: rat) \<le> of_int n" by (simp only: of_int_le_iff not_less)
  then have big: "2 ^ 43 \<le> ?x" by simp
  then have "1 \<le> ?x" by simp
  from exponent_exists [OF this] obtain k where k: "2 ^ k \<le> ?x" "?x < 2 ^ Suc k" by blast
  from big k(2) have "(2::rat) ^ 43 < 2 ^ Suc k" by (rule le_less_trans)
  then have "43 < Suc k" by (rule pow2_less_D)
  then have "43 \<le> k" by simp
  then have "(2::rat) ^ 43 \<le> 2 ^ k"
    by (simp only: power_increasing_iff one_less_numeral_iff semiring_norm)
  with round_binary64_bounds(1) [OF k] have "2 ^ 43 \<le> round_binary64 ?x" by simp
  with big assms(2) show ?thesis by simp
qed

text \<open>
  The value of \<^verbatim>\<open>human_size\<close> from 1024 on, in terms of the float \<open>x\<close> that the
  first division gives.
\<close>

lemma human_size_scaled:
  assumes "1024 \<le> n" and "n < 2 ^ 1034 - 2 ^ 980"
  defines "x \<equiv> round_binary64 (of_int n / 1024)"
  shows "human_size n = Inr (Some
           (if n < 2 ^ 20 then format_f 2 x @ '' KB''
            else if n < 2 ^ 30 then format_f 2 (x / 2 ^ 10) @ '' MB''
            else format_f 2 (x / 2 ^ 20) @ '' GB''))"
proof -
  have one: "1 \<le> (of_int n / 1024 :: rat)" using assms(1) by simp
  from round_binary64_is_float [OF one] obtain m t where
    f: "x = of_int m * 2 powi t" "0 < m" "m \<le> 2 ^ 53"
    unfolding x_def by blast
  have d: "int_truediv n 1024 = Inr x"
    using truediv_1024 [OF assms(1)] assms(2) by (simp add: x_def)
  have t1: "(x < 1024) = (n < 2 ^ 20)"
    unfolding x_def using quotient_threshold [OF assms(1), of 1024] by simp
  have t2: "(x < 2 ^ 20) = (n < 2 ^ 30)"
    unfolding x_def using quotient_threshold [OF assms(1), of "2 ^ 20"] by simp
  show ?thesis
  proof (cases "n < 2 ^ 20")
    case True
    with t1 have "x < 1024" by simp
    with True d assms(1) show ?thesis
      by (simp add: human_size_def)
  next
    case False
    with t1 have x1: "2 ^ 10 \<le> x" by simp
    from divide_float_exact [OF f x1] have e1: "float_truediv x 1024 = Inr (x / 2 ^ 10)"
      by (simp add: float_truediv_def)
    show ?thesis
    proof (cases "n < 2 ^ 30")
      case True
      with t2 have "x / 2 ^ 10 < 1024" by simp
      with True False x1 d e1 assms(1) show ?thesis
        by (simp add: human_size_def float_of_int_1024)
    next
      case big: False
      with t2 have x2: "2 ^ 10 \<le> x / 2 ^ 10" by simp
      have f2: "x / 2 ^ 10 = of_int m * 2 powi (t - 10)"
        unfolding f(1) by (simp add: power_int_diff)
      from divide_float_exact [OF f2 f(2,3) x2]
      have e2: "float_truediv (x / 2 ^ 10) 1024 = Inr (x / 2 ^ 20)"
        by (simp add: float_truediv_def)
      from big False x1 x2 d e1 e2 assms(1) show ?thesis
        by (simp add: human_size_def float_of_int_1024)
    qed
  qed
qed

text \<open>The text of a finite non-negative float with \<open>p\<close> decimals.\<close>

lemma format_f_shape:
  assumes "0 \<le> v" and "v < 2 ^ 1024" and "0 < p"
  shows "\<exists>k. format_f p v = digits (k div 10 ^ p) @ ''.'' @ zfill p (digits (k mod 10 ^ p))
           \<and> length (zfill p (digits (k mod 10 ^ p))) = p
           \<and> \<bar>of_nat k / 10 ^ p - v\<bar> \<le> 1 / (2 * 10 ^ p)"
proof -
  let ?k = "nat (round_half_even (\<bar>v\<bar> * 10 ^ p))"
  have a: "\<bar>v\<bar> = v" "\<not> v < 0" "\<not> 2 ^ 1024 \<le> v" using assms by simp_all
  have 1: "format_f p v = digits (?k div 10 ^ p) @ ''.'' @ zfill p (digits (?k mod 10 ^ p))"
    using a by (simp add: format_f_def Let_def)
  have "?k mod 10 ^ p < 10 ^ p" by simp
  from digits_length_le [OF assms(3) this]
  have 2: "length (zfill p (digits (?k mod 10 ^ p))) = p" by (rule zfill_length)
  have "(of_int 0 :: rat) \<le> v * 10 ^ p" using assms(1) by simp
  then have "0 \<le> round_half_even (v * 10 ^ p)" by (rule round_half_even_ge)
  then have k: "(of_nat ?k :: rat) = of_int (round_half_even (v * 10 ^ p))"
    unfolding a by simp
  define P :: rat where "P = 10 ^ p"
  define r :: rat where "r = of_int (round_half_even (v * P))"
  have P: "0 < P" by (simp add: P_def)
  from round_half_even_bounds [of "v * P"] have "\<bar>r - v * P\<bar> \<le> 1 / 2"
    unfolding r_def by linarith
  then have "\<bar>r - v * P\<bar> / P \<le> (1 / 2) / P"
    using P by (simp only: divide_right_mono less_imp_le)
  moreover have "r / P - v = (r - v * P) / P"
    using P by (simp add: diff_divide_distrib)
  moreover have "\<bar>(r - v * P) / P\<bar> = \<bar>r - v * P\<bar> / P"
    using P by (simp only: abs_divide abs_of_pos)
  moreover have "(1 / 2) / P = 1 / (2 * P)" by simp
  ultimately have "\<bar>r / P - v\<bar> \<le> 1 / (2 * P)" by (simp only:)
  then have 3: "\<bar>of_nat ?k / 10 ^ p - v\<bar> \<le> 1 / (2 * 10 ^ p)"
    unfolding k r_def P_def .
  from 1 2 3 show ?thesis by blast
qed

lemma human_size_overflow:
  assumes "2 ^ 1034 - 2 ^ 980 \<le> n"
  shows "human_size n = Inl OverflowError"
proof -
  have "(1024::int) \<le> 2 ^ 1034 - 2 ^ 980" by simp
  from this assms have n: "1024 \<le> n" by (rule order_trans)
  from assms have "\<not> n < 2 ^ 1034 - 2 ^ 980" by (simp only: not_less)
  with n truediv_1024 [OF n] show ?thesis
    by (simp add: human_size_def)
qed

lemma human_size_returns:
  assumes "0 \<le> n" and "n < 2 ^ 1034 - 2 ^ 980"
  shows "\<exists>s. human_size n = Inr (Some s)"
proof (cases "n < 1024")
  case True
  with assms(1) show ?thesis by (simp add: human_size_bytes)
next
  case False
  then have "1024 \<le> n" by simp
  from human_size_scaled [OF this assms(2)] show ?thesis by blast
qed

text \<open>
  \<^verbatim>\<open>human_size\<close> never falls off its loop, and never asks for the \<^verbatim>\<open>str\<close> of a
  float, the one expression that the model leaves out.
\<close>

lemma human_size_never_str_of_float:
  "human_size n \<noteq> Inr None \<and> human_size n \<noteq> Inl Float_repr_unmodelled"
proof (cases "n < 1024")
  case True
  then show ?thesis
    by (simp add: human_size_def int_str_def)
next
  case False
  then have n: "0 \<le> n" by simp
  show ?thesis
  proof (cases "n < 2 ^ 1034 - 2 ^ 980")
    case True
    from human_size_returns [OF n this] show ?thesis by auto
  next
    case False
    then have "2 ^ 1034 - 2 ^ 980 \<le> n" by (simp only: not_less)
    from human_size_overflow [OF this] show ?thesis by simp
  qed
qed

text \<open>
  Claim C7 says that every non-negative byte count is rendered. The first division,
  of an int by 1024, raises \<^verbatim>\<open>OverflowError\<close> when its rounded quotient is not a
  finite float, and the least count for which it does is \<open>2 ^ 1034 - 2 ^ 980\<close>.
\<close>

theorem human_size_render_counterexample:
  "human_size (2 ^ 1034 - 2 ^ 980) = Inl OverflowError"
  by (rule human_size_overflow) simp

text \<open>
  Claim C7 as amended. For every non-negative byte count below
  \<open>2 ^ 1034 - 2 ^ 980\<close>: a count below 1024 is rendered as an integer, with no
  decimals, and the unit B; a larger one is divided by 1024 until the value is below
  1024 or the unit is GB, through KB, MB and GB, and the value is rendered with two
  decimal places. The value is the exact quotient for counts below \<open>2 ^ 53\<close>, and
  the quotient of the rounded first division otherwise. Two decimal places: the text
  is the digits of \<open>k div 100\<close>, a point and the two digits of \<open>k mod 100\<close>, for a
  \<open>k\<close> with \<open>k / 100\<close> within \<open>1 / 200\<close> of the value. In particular 500 gives
  \<^verbatim>\<open>500 B\<close>, 2048 gives \<^verbatim>\<open>2.00 KB\<close> and 1073741824 gives \<^verbatim>\<open>1.00 GB\<close>.
\<close>

theorem human_size_units:
  "(0 \<le> n \<and> n < 2 ^ 1034 - 2 ^ 980 \<longrightarrow>
      human_size n = Inr (Some
        (if n < 2 ^ 10 then str_int n @ '' B''
         else if n < 2 ^ 20 then format_f 2 (round_binary64 (of_int n / 2 ^ 10)) @ '' KB''
         else if n < 2 ^ 30
           then format_f 2 (round_binary64 (of_int n / 2 ^ 10) / 2 ^ 10) @ '' MB''
         else format_f 2 (round_binary64 (of_int n / 2 ^ 10) / 2 ^ 20) @ '' GB'')))
   \<and> (2 ^ 10 \<le> n \<and> n < 2 ^ 53 \<longrightarrow> round_binary64 (of_int n / 2 ^ 10) = of_int n / 2 ^ 10)
   \<and> (0 \<le> n \<longrightarrow> str_int n = digits (nat n))
   \<and> (0 \<le> v \<and> v < 2 ^ 1024 \<longrightarrow>
        (\<exists>k. format_f 2 v = digits (k div 100) @ ''.'' @ zfill 2 (digits (k mod 100))
           \<and> length (zfill 2 (digits (k mod 100))) = 2
           \<and> \<bar>of_nat k / 100 - v\<bar> \<le> 1 / 200))
   \<and> human_size 500 = Inr (Some ''500 B'')
   \<and> human_size 2048 = Inr (Some ''2.00 KB'')
   \<and> human_size 1073741824 = Inr (Some ''1.00 GB'')"
proof -
  have 1: "human_size n = Inr (Some
        (if n < 2 ^ 10 then str_int n @ '' B''
         else if n < 2 ^ 20 then format_f 2 (round_binary64 (of_int n / 2 ^ 10)) @ '' KB''
         else if n < 2 ^ 30
           then format_f 2 (round_binary64 (of_int n / 2 ^ 10) / 2 ^ 10) @ '' MB''
         else format_f 2 (round_binary64 (of_int n / 2 ^ 10) / 2 ^ 20) @ '' GB''))"
    if "0 \<le> n \<and> n < 2 ^ 1034 - 2 ^ 980"
  proof (cases "n < 1024")
    case True
    with that show ?thesis by (simp add: human_size_bytes)
  next
    case False
    then have "1024 \<le> n" by simp
    from human_size_scaled [OF this] that False show ?thesis by simp
  qed
  have 2: "round_binary64 (of_int n / 2 ^ 10) = of_int n / 2 ^ 10"
    if "2 ^ 10 \<le> n \<and> n < 2 ^ 53"
    using that by (intro round_binary64_small) simp_all
  have 3: "str_int n = digits (nat n)" if "0 \<le> n"
    using that by (simp add: str_int_def)
  have 4: "\<exists>k. format_f 2 v = digits (k div 100) @ ''.'' @ zfill 2 (digits (k mod 100))
           \<and> length (zfill 2 (digits (k mod 100))) = 2
           \<and> \<bar>of_nat k / 100 - v\<bar> \<le> 1 / 200"
    if "0 \<le> v \<and> v < 2 ^ 1024"
    using that format_f_shape [of v 2] by simp
  have 5: "human_size 500 = Inr (Some ''500 B'')" "human_size 2048 = Inr (Some ''2.00 KB'')"
    "human_size 1073741824 = Inr (Some ''1.00 GB'')"
    by (simp_all add: num_eval)
  from 1 2 3 4 5 show ?thesis by blast
qed

theorem human_size_units_witness:
  "human_size 1152 = Inr (Some ''1.12 KB'')
   \<and> human_size 123456789 = Inr (Some ''117.74 MB'')
   \<and> human_size 1048575 = Inr (Some ''1024.00 KB'')
   \<and> format_f 2 (9 / 8) = ''1.12''"
proof -
  have e: "human_size 1152 = Inr (Some ''1.12 KB'')"
    "human_size 123456789 = Inr (Some ''117.74 MB'')"
    "human_size 1048575 = Inr (Some ''1024.00 KB'')"
    "format_f 2 (9 / 8) = ''1.12''"
    by (simp_all add: num_eval)
  from human_size_units [of 1152 "9 / 8"] e show ?thesis by simp
qed

text \<open>
  Claim C10 says that \<^verbatim>\<open>human_size\<close> returns a string for every non-negative
  integer. For \<open>2 ^ 1034\<close> it raises \<^verbatim>\<open>OverflowError\<close>.
\<close>

theorem human_size_total_counterexample:
  "human_size (2 ^ 1034) = Inl OverflowError"
  by (simp add: num_eval)

text \<open>
  Claim C10 as amended. For every non-negative integer below
  \<open>2 ^ 1034 - 2 ^ 980\<close>, \<^verbatim>\<open>human_size\<close> returns a string, and from that bound on
  it raises \<^verbatim>\<open>OverflowError\<close> in its first division; it never falls off the loop
  of units returning nothing. A count of 1024 GB or more, below the bound, is rendered
  in the unit GB with two decimals, as a value that is 1024 or more: there is no larger
  unit. For instance \<open>2 ^ 41\<close> gives \<^verbatim>\<open>2048.00 GB\<close>.
\<close>

theorem human_size_total_below_overflow:
  "(0 \<le> n \<and> n < 2 ^ 1034 - 2 ^ 980 \<longrightarrow> (\<exists>s. human_size n = Inr (Some s)))
   \<and> (2 ^ 1034 - 2 ^ 980 \<le> n \<longrightarrow> human_size n = Inl OverflowError)
   \<and> human_size n \<noteq> Inr None
   \<and> (2 ^ 40 \<le> n \<and> n < 2 ^ 1034 - 2 ^ 980 \<longrightarrow>
        human_size n
          = Inr (Some (format_f 2 (round_binary64 (of_int n / 2 ^ 10) / 2 ^ 20) @ '' GB''))
        \<and> 1024 \<le> round_binary64 (of_int n / 2 ^ 10) / 2 ^ 20)
   \<and> human_size (2 ^ 41) = Inr (Some ''2048.00 GB'')"
proof -
  have 1: "human_size n
          = Inr (Some (format_f 2 (round_binary64 (of_int n / 2 ^ 10) / 2 ^ 20) @ '' GB''))
        \<and> 1024 \<le> round_binary64 (of_int n / 2 ^ 10) / 2 ^ 20"
    if "2 ^ 40 \<le> n \<and> n < 2 ^ 1034 - 2 ^ 980"
  proof -
    from that have n: "1024 \<le> n" "\<not> n < 2 ^ 20" "\<not> n < 2 ^ 30" by simp_all
    from that have "(of_int (2 ^ 40) :: rat) \<le> of_int n" by (simp only: of_int_le_iff)
    then have "\<not> (of_int n / 1024 :: rat) < 2 ^ 30" by simp
    with quotient_threshold [OF n(1), of "2 ^ 30"]
    have "\<not> round_binary64 (of_int n / 1024) < 2 ^ 30" by simp
    then have "1024 \<le> round_binary64 (of_int n / 2 ^ 10) / 2 ^ 20" by simp
    with human_size_scaled [OF n(1)] that n show ?thesis by simp
  qed
  have 2: "human_size (2 ^ 41) = Inr (Some ''2048.00 GB'')"
    by (simp add: num_eval)
  from 1 2 human_size_returns [of n] human_size_overflow [of n]
    human_size_never_str_of_float [of n]
  show ?thesis by blast
qed

theorem human_size_total_below_overflow_witness:
  "human_size (2 ^ 50) = Inr (Some ''1048576.00 GB'')
   \<and> human_size 0 = Inr (Some ''0 B'')"
proof -
  have e: "human_size (2 ^ 50) = Inr (Some ''1048576.00 GB'')"
    "human_size 0 = Inr (Some ''0 B'')"
    by (simp_all add: num_eval)
  from human_size_total_below_overflow [of "2 ^ 50"] e show ?thesis by simp
qed

section \<open>Splitting the exclusion option\<close>

lemma split_from_not_Nil: "split_from sep cur s \<noteq> []"
  by (induction s arbitrary: cur) auto

lemma str_join_Cons:
  "ps \<noteq> [] \<Longrightarrow> str_join sep (p # ps) = p @ sep # str_join sep ps"
  by (cases ps) auto

lemma str_join_split_from: "str_join sep (split_from sep cur s) = cur @ s"
  by (induction s arbitrary: cur) (auto simp: str_join_Cons split_from_not_Nil)

lemma split_from_no_sep:
  "sep \<notin> set cur \<Longrightarrow> \<forall>p \<in> set (split_from sep cur s). sep \<notin> set p"
proof (induction s arbitrary: cur)
  case Nil
  then show ?case by simp
next
  case (Cons c cs)
  show ?case
  proof (cases "c = sep")
    case True
    with Cons.prems Cons.IH [of "[]"] show ?thesis by simp
  next
    case False
    with Cons.prems have "sep \<notin> set (cur @ [c])" by auto
    with False Cons.IH [of "cur @ [c]"] show ?thesis by simp
  qed
qed

lemma length_split_from:
  "length (split_from sep cur s) = Suc (count_list s sep)"
  by (induction s arbitrary: cur) auto

text \<open>
  Claim C9. A non-empty exclusion string is cut exactly at its commas: joining the
  pieces with commas gives the string back character for character (so nothing is
  trimmed), no piece holds a comma, and there is one piece more than there are
  commas. For \<^verbatim>\<open>"a, b"\<close> the second pattern is \<^verbatim>\<open>" b"\<close>, with its space, and the
  basename \<^verbatim>\<open>"b"\<close> is not in the resulting exclusion set. The empty string gives no
  pattern, so the exclusion set is the default one.
\<close>

theorem exclude_split_exact:
  "(s \<noteq> [] \<longrightarrow>
      str_join (CHR '','') (parse_exclude s) = s
      \<and> (\<forall>p \<in> set (parse_exclude s). CHR '','' \<notin> set p)
      \<and> length (parse_exclude s) = Suc (count_list s (CHR '','')))
   \<and> parse_exclude ''a, b'' = [''a'', '' b'']
   \<and> ''b'' \<notin> exclude_patterns (Some (parse_exclude ''a, b''))
   \<and> '' b'' \<in> exclude_patterns (Some (parse_exclude ''a, b''))
   \<and> parse_exclude [] = []
   \<and> exclude_patterns (Some (parse_exclude [])) = get_excluded_patterns"
proof -
  have "str_join (CHR '','') (parse_exclude s) = s" if "s \<noteq> []"
    using that by (simp add: parse_exclude_def str_split_def str_join_split_from)
  moreover have "\<forall>p \<in> set (parse_exclude s). CHR '','' \<notin> set p"
    using split_from_no_sep [of "CHR '',''" "[]" s]
    by (simp add: parse_exclude_def str_split_def)
  moreover have "length (parse_exclude s) = Suc (count_list s (CHR '',''))" if "s \<noteq> []"
    using that by (simp add: parse_exclude_def str_split_def length_split_from)
  moreover have "parse_exclude ''a, b'' = [''a'', '' b'']"
    by (simp add: parse_exclude_def str_split_def)
  moreover have "''b'' \<notin> exclude_patterns (Some (parse_exclude ''a, b''))"
    by (simp add: parse_exclude_def str_split_def exclude_patterns_def
        get_excluded_patterns_def)
  moreover have "'' b'' \<in> exclude_patterns (Some (parse_exclude ''a, b''))"
    by (simp add: parse_exclude_def str_split_def exclude_patterns_def)
  moreover have "parse_exclude [] = []"
    by (simp add: parse_exclude_def)
  moreover have "exclude_patterns (Some (parse_exclude [])) = get_excluded_patterns"
    by (simp add: parse_exclude_def exclude_patterns_def)
  ultimately show ?thesis by blast
qed

theorem exclude_split_exact_witness:
  "''x,, y '' \<noteq> []
   \<and> parse_exclude ''x,, y '' = [''x'', [], '' y '']
   \<and> str_join (CHR '','') (parse_exclude ''x,, y '') = ''x,, y ''
   \<and> length (parse_exclude ''x,, y '') = 3"
  using exclude_split_exact [of "''x,, y ''"]
  by (simp add: parse_exclude_def str_split_def)

end
